theory Spec2Isabelle
  imports Main "HOL-Library.Word"
begin

unbundle bit_operations_syntax

section \<open>Data model of package proc (stat decoder)\<close>

text \<open>
  Go strings and byte slices are sequences of bytes: they are modelled as \<open>string\<close>
  (a list of 8-bit characters). Go's \<open>error\<close> interface value is an \<open>error option\<close>
  (\<open>None\<close> is \<open>nil\<close>). A run-time panic (index out of range) is the left summand of
  \<open>panic + 'a\<close>. Fixed-width integers are words; the signed types \<open>int8\<close>, \<open>int16\<close>,
  \<open>int32\<close> and \<open>int64\<close> are words read through \<open>sint\<close>.
\<close>

datatype error = ErrSyntax | ErrRange | ErrBase | ErrBitSize | erreof | ErrReadFile

datatype panic = IndexOutOfRange

type_synonym int16 = "16 word"
type_synonym uint16 = "16 word"
type_synonym int32 = "32 word"
type_synonym uint32 = "32 word"
type_synonym int64 = "64 word"
type_synonym uint64 = "64 word"
type_synonym byte = "8 word"

text \<open>\<open>type StatTaskState int8\<close> and its constants.\<close>

type_synonym StatTaskState = "8 word"

definition Running :: StatTaskState where "Running = of_char (CHR ''R'')"
definition Sleeping :: StatTaskState where "Sleeping = of_char (CHR ''S'')"
definition DiskSleep :: StatTaskState where "DiskSleep = of_char (CHR ''D'')"
definition Zombie :: StatTaskState where "Zombie = of_char (CHR ''Z'')"
definition Stopped :: StatTaskState where "Stopped = of_char (CHR ''T'')"
definition TracingStop :: StatTaskState where "TracingStop = of_char (CHR ''t'')"
definition Dead :: StatTaskState where "Dead = of_char (CHR ''X'')"
definition Dead2633To313 :: StatTaskState where "Dead2633To313 = of_char (CHR ''x'')"
definition Wakekill :: StatTaskState where "Wakekill = of_char (CHR ''K'')"
definition PagingWaking :: StatTaskState where "PagingWaking = of_char (CHR ''W'')"
definition Parked :: StatTaskState where "Parked = of_char (CHR ''P'')"

text \<open>\<open>type StatField struct\<close>, field by field.\<close>

record StatField =
  Pid :: int32
  Comm :: string
  State :: StatTaskState
  PPid :: int32
  PGrp :: int32
  Session :: int32
  TTYNR :: int32
  TPGid :: int32
  TaskFlags :: uint32
  MinFlt :: uint64
  CMinFlt :: uint64
  MajFlt :: uint64
  CMajFlt :: uint64
  UTime :: uint64
  STime :: uint64
  CUTime :: int64
  CSTime :: int64
  Priority :: int64
  Nice :: int64
  NumThreads :: int64
  ItRealValue :: int64
  StartTime :: uint64
  VSize :: uint64
  RSS :: uint64
  RSSLim :: uint64
  StartCode :: uint64
  EndCode :: uint64
  StartStack :: uint64
  KStkEsp :: uint64
  KStkEip :: uint64
  TaskPendingSig :: uint64
  TaskBlockSig :: uint64
  SigIgnoreSig :: uint64
  SigCatchSig :: uint64
  WChan :: uint64
  NSwap :: uint64
  CNSwap :: uint64
  ExitSignal :: int32
  Processor :: int32
  RtPriority :: uint32
  Policy :: uint32
  DelayacctBlkioTicks :: uint64
  GuestTime :: uint64
  CGuestTime :: int64
  StartData :: uint64
  EndData :: uint64
  StartBrk :: uint64
  ArgStart :: uint64
  ArgEnd :: uint64
  EnvStart :: uint64
  EnvEnd :: uint64
  ExitCode :: int32


section \<open>The library functions \<open>strconv.ParseUint\<close> and \<open>strconv.ParseInt\<close>\<close>

text \<open>
  The decoder converts every numeric token with Go's standard library, which is not part
  of the repository. The two functions are modelled after \<open>strconv/atoi.go\<close>: the digit
  loop of \<open>ParseUint\<close> with its two overflow tests on a 64-bit accumulator, and the sign
  and range handling of \<open>ParseInt\<close>. The program always passes base 10; the model covers
  the explicit bases 2 to 36 (base 0, which enables prefixes and underscores, is not
  modelled and is answered with \<open>ErrBase\<close>). \<open>IntSize\<close> is 64.
\<close>

definition lower :: "byte \<Rightarrow> byte" where
  "lower c = c OR 0x20"

definition digit_val :: "byte \<Rightarrow> byte option" where
  "digit_val c =
     (if 0x30 \<le> c \<and> c \<le> 0x39 then Some (c - 0x30)
      else if 0x61 \<le> lower c \<and> lower c \<le> 0x7A then Some (lower c - 0x61 + 10)
      else None)"

fun ParseUint_loop :: "byte list \<Rightarrow> byte \<Rightarrow> uint64 \<Rightarrow> uint64 \<Rightarrow> uint64 \<Rightarrow> uint64 \<times> error option" where
  "ParseUint_loop [] base cutoff maxVal n = (n, None)"
| "ParseUint_loop (c # cs) base cutoff maxVal n =
     (case digit_val c of
        None \<Rightarrow> (0, Some ErrSyntax)
      | Some d \<Rightarrow>
          if d \<ge> base then (0, Some ErrSyntax)
          else if n \<ge> cutoff then (maxVal, Some ErrRange)
          else
            let n' = n * ucast base;
                n1 = n' + ucast d
            in if n1 < n' \<or> n1 > maxVal then (maxVal, Some ErrRange)
               else ParseUint_loop cs base cutoff maxVal n1)"

definition ParseUint :: "string \<Rightarrow> nat \<Rightarrow> nat \<Rightarrow> uint64 \<times> error option" where
  "ParseUint s base bitSize =
     (if s = [] then (0, Some ErrSyntax)
      else if \<not> (2 \<le> base \<and> base \<le> 36) then (0, Some ErrBase)
      else if bitSize > 64 then (0, Some ErrBitSize)
      else
        let bitSize' = (if bitSize = 0 then 64 else bitSize);
            cutoff = (- 1) div of_nat base + 1;
            maxVal = push_bit bitSize' 1 - 1
        in ParseUint_loop (map of_char s) (of_nat base) cutoff maxVal 0)"

definition ParseInt :: "string \<Rightarrow> nat \<Rightarrow> nat \<Rightarrow> int64 \<times> error option" where
  "ParseInt s0 base bitSize =
     (if s0 = [] then (0, Some ErrSyntax)
      else
        let neg = (hd s0 = CHR ''-'');
            s = (if hd s0 = CHR ''+'' \<or> hd s0 = CHR ''-'' then tl s0 else s0)
        in case ParseUint s base bitSize of (un, err) \<Rightarrow>
          if err \<noteq> None \<and> err \<noteq> Some ErrRange then (0, err)
          else
            let bitSize' = (if bitSize = 0 then 64 else bitSize);
                cutoff = (push_bit (bitSize' - 1) 1 :: uint64)
            in if \<not> neg \<and> un \<ge> cutoff then (cutoff - 1, Some ErrRange)
               else if neg \<and> un > cutoff then (- cutoff, Some ErrRange)
               else (if neg then - un else un, None))"

section \<open>Narrowing conversions\<close>

definition int16Cover :: "string \<Rightarrow> int16 \<times> error option" where
  "int16Cover s =
     (case ParseInt s 10 16 of (i64, err) \<Rightarrow>
        if err \<noteq> None then (0, err) else (ucast i64, None))"

definition uint16Cover :: "string \<Rightarrow> uint16 \<times> error option" where
  "uint16Cover s =
     (case ParseUint s 10 16 of (ui64, err) \<Rightarrow>
        if err \<noteq> None then (0, err) else (ucast ui64, None))"

definition int32Cover :: "string \<Rightarrow> int32 \<times> error option" where
  "int32Cover s =
     (case ParseInt s 10 32 of (i64, err) \<Rightarrow>
        if err \<noteq> None then (0, err) else (ucast i64, None))"

definition uint32Cover :: "string \<Rightarrow> uint32 \<times> error option" where
  "uint32Cover s =
     (case ParseUint s 10 32 of (ui64, err) \<Rightarrow>
        if err \<noteq> None then (0, err) else (ucast ui64, None))"

definition int64Cover :: "string \<Rightarrow> int64 \<times> error option" where
  "int64Cover s = ParseInt s 10 64"

definition uint64Cover :: "string \<Rightarrow> uint64 \<times> error option" where
  "uint64Cover s = ParseUint s 10 64"

section \<open>The schema table \<open>fieldParseMap\<close> and \<open>StatField.fill\<close>\<close>

text \<open>
  Every entry of the table is a closure that receives the token and the record, assigns
  one field and returns an error value. An assignment \<open>sf.X, err = cover(field)\<close> stores
  the first result in the field whether or not \<open>err\<close> is nil. The closure of position 3
  indexes the first byte of the token, which panics on the empty token.
\<close>

definition parseState :: "string \<Rightarrow> StatField \<Rightarrow> panic + (StatField \<times> error option)" where
  "parseState field sf =
     (case field of
        [] \<Rightarrow> Inl IndexOutOfRange
      | c # _ \<Rightarrow>
          let st = (of_char c :: StatTaskState) in
          Inr (if st = Running then sf\<lparr>State := Running\<rparr>
               else if st = Sleeping then sf\<lparr>State := Sleeping\<rparr>
               else if st = DiskSleep then sf\<lparr>State := DiskSleep\<rparr>
               else if st = Zombie then sf\<lparr>State := Zombie\<rparr>
               else if st = Stopped then sf\<lparr>State := Stopped\<rparr>
               else if st = TracingStop then sf\<lparr>State := TracingStop\<rparr>
               else if st = PagingWaking then sf\<lparr>State := PagingWaking\<rparr>
               else if st = Dead then sf\<lparr>State := Dead\<rparr>
               else if st = Dead2633To313 then sf\<lparr>State := Dead2633To313\<rparr>
               else if st = Wakekill then sf\<lparr>State := Wakekill\<rparr>
               else if st = Parked then sf\<lparr>State := Parked\<rparr>
               else sf\<lparr>State := st\<rparr>, None))"

definition fieldParseList ::
  "(int \<times> (string \<Rightarrow> StatField \<Rightarrow> panic + (StatField \<times> error option))) list" where
  "fieldParseList = [
   (1, \<lambda>field sf. case int32Cover field of (v, err) \<Rightarrow> Inr (sf\<lparr>Pid := v\<rparr>, err)),
   (2, \<lambda>field sf. Inr (sf\<lparr>Comm := field\<rparr>, None)),
   (3, parseState),
   (4, \<lambda>field sf. case int32Cover field of (v, err) \<Rightarrow> Inr (sf\<lparr>PPid := v\<rparr>, err)),
   (5, \<lambda>field sf. case int32Cover field of (v, err) \<Rightarrow> Inr (sf\<lparr>PGrp := v\<rparr>, err)),
   (6, \<lambda>field sf. case int32Cover field of (v, err) \<Rightarrow> Inr (sf\<lparr>Session := v\<rparr>, err)),
   (7, \<lambda>field sf. case int32Cover field of (v, err) \<Rightarrow> Inr (sf\<lparr>TTYNR := v\<rparr>, err)),
   (8, \<lambda>field sf. case int32Cover field of (v, err) \<Rightarrow> Inr (sf\<lparr>TPGid := v\<rparr>, err)),
   (9, \<lambda>field sf. case uint32Cover field of (v, err) \<Rightarrow> Inr (sf\<lparr>TaskFlags := v\<rparr>, err)),
   (10, \<lambda>field sf. case uint64Cover field of (v, err) \<Rightarrow> Inr (sf\<lparr>MinFlt := v\<rparr>, err)),
   (11, \<lambda>field sf. case uint64Cover field of (v, err) \<Rightarrow> Inr (sf\<lparr>CMinFlt := v\<rparr>, err)),
   (12, \<lambda>field sf. case uint64Cover field of (v, err) \<Rightarrow> Inr (sf\<lparr>MajFlt := v\<rparr>, err)),
   (13, \<lambda>field sf. case uint64Cover field of (v, err) \<Rightarrow> Inr (sf\<lparr>MajFlt := v\<rparr>, err)),
   (14, \<lambda>field sf. case uint64Cover field of (v, err) \<Rightarrow> Inr (sf\<lparr>UTime := v\<rparr>, err)),
   (15, \<lambda>field sf. case uint64Cover field of (v, err) \<Rightarrow> Inr (sf\<lparr>STime := v\<rparr>, err)),
   (16, \<lambda>field sf. case int64Cover field of (v, err) \<Rightarrow> Inr (sf\<lparr>CUTime := v\<rparr>, err)),
   (17, \<lambda>field sf. case int64Cover field of (v, err) \<Rightarrow> Inr (sf\<lparr>CSTime := v\<rparr>, err)),
   (18, \<lambda>field sf. case int64Cover field of (v, err) \<Rightarrow> Inr (sf\<lparr>Priority := v\<rparr>, err)),
   (19, \<lambda>field sf. case int64Cover field of (v, err) \<Rightarrow> Inr (sf\<lparr>Nice := v\<rparr>, err)),
   (20, \<lambda>field sf. case int64Cover field of (v, err) \<Rightarrow> Inr (sf\<lparr>NumThreads := v\<rparr>, err)),
   (21, \<lambda>field sf. case int64Cover field of (v, err) \<Rightarrow> Inr (sf\<lparr>ItRealValue := v\<rparr>, err)),
   (22, \<lambda>field sf. case uint64Cover field of (v, err) \<Rightarrow> Inr (sf\<lparr>StartTime := v\<rparr>, err)),
   (23, \<lambda>field sf. case uint64Cover field of (v, err) \<Rightarrow> Inr (sf\<lparr>VSize := v\<rparr>, err)),
   (24, \<lambda>field sf. case uint64Cover field of (v, err) \<Rightarrow> Inr (sf\<lparr>RSS := v\<rparr>, err)),
   (25, \<lambda>field sf. case uint64Cover field of (v, err) \<Rightarrow> Inr (sf\<lparr>RSSLim := v\<rparr>, err)),
   (26, \<lambda>field sf. case uint64Cover field of (v, err) \<Rightarrow> Inr (sf\<lparr>StartCode := v\<rparr>, err)),
   (27, \<lambda>field sf. case uint64Cover field of (v, err) \<Rightarrow> Inr (sf\<lparr>EndCode := v\<rparr>, err)),
   (28, \<lambda>field sf. case uint64Cover field of (v, err) \<Rightarrow> Inr (sf\<lparr>StartStack := v\<rparr>, err)),
   (29, \<lambda>field sf. case uint64Cover field of (v, err) \<Rightarrow> Inr (sf\<lparr>KStkEsp := v\<rparr>, err)),
   (30, \<lambda>field sf. case uint64Cover field of (v, err) \<Rightarrow> Inr (sf\<lparr>KStkEip := v\<rparr>, err)),
   (31, \<lambda>field sf. case uint64Cover field of (v, err) \<Rightarrow> Inr (sf\<lparr>TaskPendingSig := v\<rparr>, err)),
   (32, \<lambda>field sf. case uint64Cover field of (v, err) \<Rightarrow> Inr (sf\<lparr>TaskBlockSig := v\<rparr>, err)),
   (33, \<lambda>field sf. case uint64Cover field of (v, err) \<Rightarrow> Inr (sf\<lparr>SigIgnoreSig := v\<rparr>, err)),
   (34, \<lambda>field sf. case uint64Cover field of (v, err) \<Rightarrow> Inr (sf\<lparr>SigCatchSig := v\<rparr>, err)),
   (35, \<lambda>field sf. case uint64Cover field of (v, err) \<Rightarrow> Inr (sf\<lparr>WChan := v\<rparr>, err)),
   (36, \<lambda>field sf. case uint64Cover field of (v, err) \<Rightarrow> Inr (sf\<lparr>NSwap := v\<rparr>, err)),
   (37, \<lambda>field sf. case uint64Cover field of (v, err) \<Rightarrow> Inr (sf\<lparr>CNSwap := v\<rparr>, err)),
   (38, \<lambda>field sf. case int32Cover field of (v, err) \<Rightarrow> Inr (sf\<lparr>ExitSignal := v\<rparr>, err)),
   (39, \<lambda>field sf. case int32Cover field of (v, err) \<Rightarrow> Inr (sf\<lparr>Processor := v\<rparr>, err)),
   (40, \<lambda>field sf. case uint32Cover field of (v, err) \<Rightarrow> Inr (sf\<lparr>RtPriority := v\<rparr>, err)),
   (41, \<lambda>field sf. case uint32Cover field of (v, err) \<Rightarrow> Inr (sf\<lparr>Policy := v\<rparr>, err)),
   (42, \<lambda>field sf. case uint64Cover field of (v, err) \<Rightarrow> Inr (sf\<lparr>DelayacctBlkioTicks := v\<rparr>, err)),
   (43, \<lambda>field sf. case uint64Cover field of (v, err) \<Rightarrow> Inr (sf\<lparr>GuestTime := v\<rparr>, err)),
   (44, \<lambda>field sf. case int64Cover field of (v, err) \<Rightarrow> Inr (sf\<lparr>CGuestTime := v\<rparr>, err)),
   (45, \<lambda>field sf. case uint64Cover field of (v, err) \<Rightarrow> Inr (sf\<lparr>StartData := v\<rparr>, err)),
   (46, \<lambda>field sf. case uint64Cover field of (v, err) \<Rightarrow> Inr (sf\<lparr>EndData := v\<rparr>, err)),
   (47, \<lambda>field sf. case uint64Cover field of (v, err) \<Rightarrow> Inr (sf\<lparr>StartBrk := v\<rparr>, err)),
   (48, \<lambda>field sf. case uint64Cover field of (v, err) \<Rightarrow> Inr (sf\<lparr>ArgStart := v\<rparr>, err)),
   (49, \<lambda>field sf. case uint64Cover field of (v, err) \<Rightarrow> Inr (sf\<lparr>ArgEnd := v\<rparr>, err)),
   (50, \<lambda>field sf. case uint64Cover field of (v, err) \<Rightarrow> Inr (sf\<lparr>EnvStart := v\<rparr>, err)),
   (51, \<lambda>field sf. case uint64Cover field of (v, err) \<Rightarrow> Inr (sf\<lparr>EnvEnd := v\<rparr>, err)),
   (52, \<lambda>field sf. case int32Cover field of (v, err) \<Rightarrow> Inr (sf\<lparr>ExitCode := v\<rparr>, err))
  ]"

definition fieldParseMap ::
  "int \<Rightarrow> (string \<Rightarrow> StatField \<Rightarrow> panic + (StatField \<times> error option)) option" where
  "fieldParseMap = map_of fieldParseList"

definition fill :: "StatField \<Rightarrow> string \<Rightarrow> int \<Rightarrow> panic + (StatField \<times> error option)" where
  "fill sf field progress =
     (case fieldParseMap progress of
        Some parseFunc \<Rightarrow>
          (case parseFunc field sf of
             Inl p \<Rightarrow> Inl p
           | Inr (sf', Some err) \<Rightarrow> Inr (sf', Some err)
           | Inr (sf', None) \<Rightarrow> Inr (sf', None))
      | None \<Rightarrow> Inr (sf, None))"

section \<open>The tokenizer \<open>StatStream\<close>\<close>

text \<open>
  \<open>data\<close> is the buffer the stream points to, \<open>cur\<close> the cursor and \<open>endpos\<close> the
  field \<open>end\<close> of the source. Indexing a slice outside its length panics.
\<close>

record StatStream =
  data :: string
  cur :: nat
  endpos :: nat

definition newline :: char where
  "newline = CHR 0x0A"

definition index :: "string \<Rightarrow> nat \<Rightarrow> panic + char" where
  "index xs i = (if i < length xs then Inr (xs ! i) else Inl IndexOutOfRange)"

definition isEOF :: "StatStream \<Rightarrow> panic + bool" where
  "isEOF ss =
     (case index (data ss) (cur ss) of
        Inl p \<Rightarrow> Inl p
      | Inr c \<Rightarrow> if c = newline then Inr True else Inr False)"

definition isSpace :: "StatStream \<Rightarrow> panic + bool" where
  "isSpace ss =
     (case index (data ss) (cur ss) of
        Inl p \<Rightarrow> Inl p
      | Inr c \<Rightarrow> if c = CHR '' '' then Inr True else Inr False)"

text \<open>
  The loop of \<open>StatStream.next\<close>, with the scratch buffer \<open>buf\<close> as accumulator. The
  result is the pair the method returns and the stream with its cursor advanced.
\<close>

function next_loop :: "StatStream \<Rightarrow> string \<Rightarrow> panic + ((string \<times> error option) \<times> StatStream)" where
  "next_loop ss buf =
     (case isEOF ss of
        Inl p \<Rightarrow> Inl p
      | Inr eof \<Rightarrow>
          if eof then
            (if length buf = 0 then Inr (([], Some erreof), ss)
             else Inr ((buf, Some erreof), ss))
          else
            (case isSpace ss of
               Inl p \<Rightarrow> Inl p
             | Inr sp \<Rightarrow>
                 if sp then Inr ((buf, None), ss\<lparr>cur := cur ss + 1\<rparr>)
                 else
                   (case index (data ss) (cur ss) of
                      Inl p \<Rightarrow> Inl p
                    | Inr c \<Rightarrow> next_loop (ss\<lparr>cur := cur ss + 1\<rparr>) (buf @ [c]))))"
  by pat_completeness auto
termination
  by (relation "measure (\<lambda>(ss, buf). length (data ss) - cur ss)")
     (auto simp: index_def split: if_splits)

declare next_loop.simps [simp del]

definition next_token :: "StatStream \<Rightarrow> panic + ((string \<times> error option) \<times> StatStream)" where
  "next_token ss = next_loop ss []"

section \<open>The driver \<open>Stat.Parse\<close>\<close>

text \<open>\<open>type Stat struct\<close>; \<open>sfields\<close> is the field \<open>fields\<close> of the source.\<close>

record Stat =
  pf :: string
  stream :: StatStream
  sfields :: StatField

definition zeroStatField :: StatField where
  "zeroStatField = \<lparr>
     Pid = 0, Comm = [], State = 0, PPid = 0, PGrp = 0, Session = 0, TTYNR = 0, TPGid = 0,
     TaskFlags = 0, MinFlt = 0, CMinFlt = 0, MajFlt = 0, CMajFlt = 0, UTime = 0, STime = 0,
     CUTime = 0, CSTime = 0, Priority = 0, Nice = 0, NumThreads = 0, ItRealValue = 0,
     StartTime = 0, VSize = 0, RSS = 0, RSSLim = 0, StartCode = 0, EndCode = 0,
     StartStack = 0, KStkEsp = 0, KStkEip = 0, TaskPendingSig = 0, TaskBlockSig = 0,
     SigIgnoreSig = 0, SigCatchSig = 0, WChan = 0, NSwap = 0, CNSwap = 0, ExitSignal = 0,
     Processor = 0, RtPriority = 0, Policy = 0, DelayacctBlkioTicks = 0, GuestTime = 0,
     CGuestTime = 0, StartData = 0, EndData = 0, StartBrk = 0, ArgStart = 0, ArgEnd = 0,
     EnvStart = 0, EnvEnd = 0, ExitCode = 0 \<rparr>"

text \<open>
  \<open>NewStat\<close> allocates a zero stream and a zero record. (The zero stream's buffer
  pointer is nil; \<open>Parse\<close> sets it before the first read.)
\<close>

definition NewStat :: "string \<Rightarrow> Stat" where
  "NewStat proc = \<lparr> pf = proc, stream = \<lparr> data = [], cur = 0, endpos = 0 \<rparr>,
     sfields = zeroStatField \<rparr>"

text \<open>
  A call of \<open>next\<close> that returns leaves the buffer alone and moves the cursor forward by at
  least the number of bytes it added to the scratch buffer. The loop of \<open>Parse\<close> below
  continues only after a non-empty token, so its cursor strictly grows.
\<close>

lemma next_loop_progress:
  "next_loop ss buf = Inr ((tok, e), ss') \<Longrightarrow>
     data ss' = data ss \<and> endpos ss' = endpos ss \<and> cur ss \<le> cur ss' \<and>
     cur ss' \<le> length (data ss) \<and> length tok \<le> length buf + (cur ss' - cur ss)"
proof (induction ss buf arbitrary: tok e ss' rule: next_loop.induct)
  case (1 ss buf)
  show ?case
  proof (cases "index (data ss) (cur ss)")
    case (Inl p)
    with "1.prems" show ?thesis
      by (simp add: next_loop.simps [of ss buf] isEOF_def)
  next
    case (Inr c)
    then have lt: "cur ss < length (data ss)"
      by (simp add: index_def split: if_splits)
    show ?thesis
    proof (cases "c = newline")
      case True
      with Inr "1.prems" lt show ?thesis
        by (auto simp: next_loop.simps [of ss buf] isEOF_def split: if_splits)
    next
      case nl: False
      show ?thesis
      proof (cases "c = CHR '' ''")
        case True
        with nl Inr "1.prems" lt show ?thesis
          by (auto simp: next_loop.simps [of ss buf] isEOF_def isSpace_def)
      next
        case False
        with nl Inr "1.prems"
        have run: "next_loop (ss\<lparr>cur := cur ss + 1\<rparr>) (buf @ [c]) = Inr ((tok, e), ss')"
          by (simp add: next_loop.simps [of ss buf] isEOF_def isSpace_def)
        have "isEOF ss = Inr False" "isSpace ss = Inr False"
          using nl False Inr by (simp_all add: isEOF_def isSpace_def)
        from "1.IH" [OF this(1) _ this(2) _ Inr run] show ?thesis
          by auto
      qed
    qed
  qed
qed

text \<open>
  The loop of \<open>Parse\<close>. The error value of \<open>next\<close> is discarded (\<open>field, _ := ...\<close>); the
  loop breaks on the empty token and returns on the first error of \<open>fill\<close>. The result is
  the pair \<open>(*StatField, error)\<close> that \<open>Parse\<close> returns, and the \<open>Stat\<close> object after the
  call.
\<close>

function Parse_loop :: "Stat \<Rightarrow> int \<Rightarrow> panic + ((StatField option \<times> error option) \<times> Stat)" where
  "Parse_loop s parseProgressIndex =
     (case next_token (stream s) of
        Inl p \<Rightarrow> Inl p
      | Inr ((field, _), ss') \<Rightarrow>
          if field = [] then Inr ((Some (sfields s), None), s\<lparr>stream := ss'\<rparr>)
          else
            (case fill (sfields s) field parseProgressIndex of
               Inl p \<Rightarrow> Inl p
             | Inr (sf', Some err) \<Rightarrow>
                 Inr ((None, Some err), s\<lparr>stream := ss', sfields := sf'\<rparr>)
             | Inr (sf', None) \<Rightarrow>
                 Parse_loop (s\<lparr>stream := ss', sfields := sf'\<rparr>) (parseProgressIndex + 1)))"
  by pat_completeness auto
termination
  apply (relation "measure (\<lambda>(s, p). length (data (stream s)) - cur (stream s))")
   apply simp
  subgoal for s p x2 x1 ss' field e
    using next_loop_progress [of "stream s" "[]" field e ss']
    by (cases field) (auto simp: next_token_def)
  done

declare Parse_loop.simps [simp del]

text \<open>
  \<open>Parse\<close>, with \<open>ioutil.ReadFile\<close> as a parameter: a function from the path to the
  pair of the bytes read and the error.
\<close>

definition Parse ::
  "(string \<Rightarrow> string \<times> error option) \<Rightarrow> Stat \<Rightarrow> panic + ((StatField option \<times> error option) \<times> Stat)" where
  "Parse ReadFile s =
     (case ReadFile (pf s) of
        (d, Some err) \<Rightarrow> Inr ((None, Some err), s)
      | (d, None) \<Rightarrow>
          Parse_loop (s\<lparr>stream := \<lparr> data = d, cur = 0, endpos = length d \<rparr>\<rparr>) 1)"

text \<open>
  The state of the loop of \<open>Parse\<close> (the \<open>Stat\<close> object and \<open>parseProgressIndex\<close>) after
  \<open>n\<close> iterations that continued, each with a non-empty token that \<open>fill\<close> accepted; \<open>None\<close>
  when the loop leaves earlier.
\<close>

fun Parse_iterations :: "nat \<Rightarrow> Stat \<Rightarrow> int \<Rightarrow> (Stat \<times> int) option" where
  "Parse_iterations 0 s p = Some (s, p)"
| "Parse_iterations (Suc n) s p =
     (case next_token (stream s) of
        Inl pn \<Rightarrow> None
      | Inr ((field, _), ss') \<Rightarrow>
          if field = [] then None
          else
            (case fill (sfields s) field p of
               Inl pn \<Rightarrow> None
             | Inr (sf', Some err) \<Rightarrow> None
             | Inr (sf', None) \<Rightarrow>
                 Parse_iterations n (s\<lparr>stream := ss', sfields := sf'\<rparr>) (p + 1)))"

section \<open>What the caller receives, and sample buffers\<close>

text \<open>
  The functions above return their result together with the object they mutated;
  \<open>returned\<close> keeps the result alone.
\<close>

definition returned :: "panic + ('a \<times> 's) \<Rightarrow> panic + 'a" where
  "returned x = map_sum id fst x"

text \<open>
  A well-formed record of 52 fields ended by a newline. Its 12th token is 5 and its 13th
  token is 7; every token from the 14th on is its own position.
\<close>

definition stat_record :: string where
  "stat_record = ''1 (init) S 0 1 1 0 -1 4210944 10 0 5 7 14 15 16 17 18 19 20 21 22 23 24 25 26 27 28 29 30 31 32 33 34 35 36 37 38 39 40 41 42 43 44 45 46 47 48 49 50 51 52'' @ [newline]"

text \<open>A record with two spaces between its third and fourth token.\<close>

definition double_space_record :: string where
  "double_space_record = ''1 (init) S  0 1 1 0 -1 4210944 10 0 0 0'' @ [newline]"

text \<open>A record of three tokens.\<close>

definition short_record :: string where
  "short_record = ''7 (x) R'' @ [newline]"

text \<open>A record whose fourth token is not a number.\<close>

definition bad_ppid_record :: string where
  "bad_ppid_record = ''1 (a) S x 5'' @ [newline]"

text \<open>
  The example record of the specification: its first thirteen tokens, the remaining
  tokens, and the record the decoder returns for it.
\<close>

definition init_prefix :: string where
  "init_prefix = ''1 (init) S 0 1 1 0 -1 4210944 10 0 0 0 ''"

definition init_rest :: string where
  "init_rest = ''14 15 16 17 18 19 20 21 22 23 24 25 26 27 28 29 30 31 32 33 34 35 36 37 38 39 40 41 42 43 44 45 46 47 48 49 50 51 52'' @ [newline]"

definition init_record :: string where
  "init_record = init_prefix @ init_rest"

definition init_fields :: StatField where
  "init_fields = \<lparr>
     Pid = 1, Comm = ''(init)'', State = Sleeping, PPid = 0, PGrp = 1, Session = 1,
     TTYNR = 0, TPGid = - 1, TaskFlags = 4210944, MinFlt = 10, CMinFlt = 0, MajFlt = 0,
     CMajFlt = 0, UTime = 14, STime = 15, CUTime = 16, CSTime = 17, Priority = 18,
     Nice = 19, NumThreads = 20, ItRealValue = 21, StartTime = 22, VSize = 23, RSS = 24,
     RSSLim = 25, StartCode = 26, EndCode = 27, StartStack = 28, KStkEsp = 29,
     KStkEip = 30, TaskPendingSig = 31, TaskBlockSig = 32, SigIgnoreSig = 33,
     SigCatchSig = 34, WChan = 35, NSwap = 36, CNSwap = 37, ExitSignal = 38,
     Processor = 39, RtPriority = 40, Policy = 41, DelayacctBlkioTicks = 42,
     GuestTime = 43, CGuestTime = 44, StartData = 45, EndData = 46, StartBrk = 47,
     ArgStart = 48, ArgEnd = 49, EnvStart = 50, EnvEnd = 51, ExitCode = 52 \<rparr>"

section \<open>A reference split\<close>

text \<open>
  An independent description of the fields of a record, in the words of the
  specification: the text before the first newline, split at every space (as
  \<open>strings.Split\<close> does, so two adjacent spaces enclose an empty segment). \<open>leading_tokens\<close>
  are the segments before the first empty one.
\<close>

fun split_space :: "string \<Rightarrow> string list" where
  "split_space [] = [[]]"
| "split_space (c # cs) =
     (if c = CHR '' '' then [] # split_space cs
      else (c # hd (split_space cs)) # tl (split_space cs))"

definition before_newline :: "string \<Rightarrow> string" where
  "before_newline d = takeWhile (\<lambda>c. c \<noteq> newline) d"

definition leading_tokens :: "string \<Rightarrow> string list" where
  "leading_tokens d = takeWhile (\<lambda>t. t \<noteq> []) (split_space (before_newline d))"

section \<open>Reference notions for numeric tokens\<close>

text \<open>Decimal digits, and the value of a string of digits read from the left.\<close>

definition is_digit :: "char \<Rightarrow> bool" where
  "is_digit c \<longleftrightarrow> 48 \<le> (of_char c :: nat) \<and> (of_char c :: nat) \<le> 57"

definition digit_of :: "char \<Rightarrow> nat" where
  "digit_of c = of_char c - 48"

definition decimal_from :: "nat \<Rightarrow> string \<Rightarrow> nat" where
  "decimal_from n ds = foldl (\<lambda>a c. 10 * a + digit_of c) n ds"

definition decimal :: "string \<Rightarrow> nat" where
  "decimal ds = decimal_from 0 ds"

text \<open>
  A token at an integer position: \<open>sg\<close> tells whether the position is signed. At a signed
  position one leading \<open>+\<close> or \<open>-\<close> is a sign; the body is what follows it. A token is a
  numeral when its body is a non-empty string of digits; \<open>digits_before\<close> are the digits of
  the body in front of its first other character.
\<close>

definition body_of :: "bool \<Rightarrow> string \<Rightarrow> string" where
  "body_of sg tok =
     (if sg \<and> tok \<noteq> [] \<and> (hd tok = CHR ''+'' \<or> hd tok = CHR ''-'') then tl tok else tok)"

definition negative :: "bool \<Rightarrow> string \<Rightarrow> bool" where
  "negative sg tok \<longleftrightarrow> sg \<and> tok \<noteq> [] \<and> hd tok = CHR ''-''"

definition numeral_token :: "bool \<Rightarrow> string \<Rightarrow> bool" where
  "numeral_token sg tok \<longleftrightarrow> body_of sg tok \<noteq> [] \<and> list_all is_digit (body_of sg tok)"

definition digits_before :: "bool \<Rightarrow> string \<Rightarrow> string" where
  "digits_before sg tok = takeWhile is_digit (body_of sg tok)"

text \<open>The number a numeral token denotes, and the range of a width.\<close>

definition token_value :: "bool \<Rightarrow> string \<Rightarrow> int" where
  "token_value sg tok =
     (if negative sg tok then - int (decimal (body_of sg tok))
      else int (decimal (body_of sg tok)))"

definition in_width :: "bool \<Rightarrow> nat \<Rightarrow> int \<Rightarrow> bool" where
  "in_width sg w v \<longleftrightarrow>
     (if sg then - (2 ^ (w - 1)) \<le> v \<and> v < 2 ^ (w - 1) else 0 \<le> v \<and> v < 2 ^ w)"

text \<open>
  The conversion the schema table applies at each integer position: whether it is signed,
  and its width in bits (lemma \<open>fill_error_by_kind\<close> derives it from the table).
\<close>

definition field_kind :: "int \<Rightarrow> (bool \<times> nat) option" where
  "field_kind p =
     (if p \<in> {1, 4, 5, 6, 7, 8, 38, 39, 52} then Some (True, 32)
      else if p \<in> {9, 40, 41} then Some (False, 32)
      else if p \<in> {16, 17, 18, 19, 20, 21, 44} then Some (True, 64)
      else if (10 \<le> p \<and> p \<le> 15) \<or> (22 \<le> p \<and> p \<le> 37) \<or> p = 42 \<or> p = 43 \<or>
              (45 \<le> p \<and> p \<le> 51) then Some (False, 64)
      else None)"

text \<open>The error value of a result, without the record.\<close>

definition error_of :: "panic + ('a \<times> error option) \<Rightarrow> panic + error option" where
  "error_of x = map_sum id snd x"

text \<open>
  The digit loop of \<open>ParseUint\<close> for base 10 on natural numbers, without the 64-bit
  accumulator: lemma \<open>ParseUint_loop_scan\<close> shows that the loop on words computes it.
\<close>

fun scan_uint :: "nat \<Rightarrow> nat \<Rightarrow> string \<Rightarrow> nat \<times> error option" where
  "scan_uint maxV n [] = (n, None)"
| "scan_uint maxV n (c # cs) =
     (if \<not> is_digit c then (0, Some ErrSyntax)
      else if 10 * n + digit_of c > maxV then (maxV, Some ErrRange)
      else scan_uint maxV (10 * n + digit_of c) cs)"

section \<open>A list view of the tokenizer and the driver\<close>

text \<open>
  The stream reads its buffer through a cursor. For the proofs the same computation is
  expressed on the bytes that remain after the cursor: \<open>next_list\<close> is \<open>next\<close> on the
  remaining bytes and returns the bytes that remain afterwards, and \<open>parse_list\<close> is the
  loop of \<open>Parse\<close> with the scan of \<open>next\<close> inlined; it returns the result pair of \<open>Parse\<close>,
  the record held by the \<open>Stat\<close> object afterwards and the remaining bytes. Lemmas
  \<open>next_loop_list\<close> and \<open>Parse_loop_list\<close> show that both agree with the functions above
  on every stream.
\<close>

fun next_list :: "string \<Rightarrow> string \<Rightarrow> panic + ((string \<times> error option) \<times> string)" where
  "next_list [] buf = Inl IndexOutOfRange"
| "next_list (c # cs) buf =
     (if c = newline then Inr ((buf, Some erreof), c # cs)
      else if c = CHR '' '' then Inr ((buf, None), cs)
      else next_list cs (buf @ [c]))"

definition at_rest :: "StatStream \<Rightarrow> string \<Rightarrow> StatStream" where
  "at_rest ss rest = ss\<lparr>cur := length (data ss) - length rest\<rparr>"


fun parse_list ::
  "StatField \<Rightarrow> int \<Rightarrow> string \<Rightarrow> string \<Rightarrow> panic + ((StatField option \<times> error option) \<times> StatField \<times> string)" where
  "parse_list sf p buf [] = Inl IndexOutOfRange"
| "parse_list sf p buf (c # cs) =
     (if c = newline then
        (if buf = [] then Inr ((Some sf, None), sf, c # cs)
         else
           (case fill sf buf p of
              Inl pn \<Rightarrow> Inl pn
            | Inr (sf', Some err) \<Rightarrow> Inr ((None, Some err), sf', c # cs)
            | Inr (sf', None) \<Rightarrow> Inr ((Some sf', None), sf', c # cs)))
      else if c = CHR '' '' then
        (if buf = [] then Inr ((Some sf, None), sf, cs)
         else
           (case fill sf buf p of
              Inl pn \<Rightarrow> Inl pn
            | Inr (sf', Some err) \<Rightarrow> Inr ((None, Some err), sf', cs)
            | Inr (sf', None) \<Rightarrow> parse_list sf' (p + 1) [] cs))
      else parse_list sf p (buf @ [c]) cs)"

text \<open>
  \<open>between a b r\<close>: every field of \<open>b\<close> has the value it has in \<open>a\<close> or the value it has in
  \<open>r\<close>. A second run of the decoder starts from such a record: each field either was
  written by the first run, or still has its value from before.
\<close>

definition between :: "StatField \<Rightarrow> StatField \<Rightarrow> StatField \<Rightarrow> bool" where
  "between a b r \<longleftrightarrow>
     ((Pid b = Pid a \<or> Pid b = Pid r) \<and>
      (Comm b = Comm a \<or> Comm b = Comm r) \<and>
      (State b = State a \<or> State b = State r) \<and>
      (PPid b = PPid a \<or> PPid b = PPid r) \<and>
      (PGrp b = PGrp a \<or> PGrp b = PGrp r) \<and>
      (Session b = Session a \<or> Session b = Session r) \<and>
      (TTYNR b = TTYNR a \<or> TTYNR b = TTYNR r) \<and>
      (TPGid b = TPGid a \<or> TPGid b = TPGid r) \<and>
      (TaskFlags b = TaskFlags a \<or> TaskFlags b = TaskFlags r) \<and>
      (MinFlt b = MinFlt a \<or> MinFlt b = MinFlt r) \<and>
      (CMinFlt b = CMinFlt a \<or> CMinFlt b = CMinFlt r) \<and>
      (MajFlt b = MajFlt a \<or> MajFlt b = MajFlt r) \<and>
      (CMajFlt b = CMajFlt a \<or> CMajFlt b = CMajFlt r) \<and>
      (UTime b = UTime a \<or> UTime b = UTime r) \<and>
      (STime b = STime a \<or> STime b = STime r) \<and>
      (CUTime b = CUTime a \<or> CUTime b = CUTime r) \<and>
      (CSTime b = CSTime a \<or> CSTime b = CSTime r) \<and>
      (Priority b = Priority a \<or> Priority b = Priority r) \<and>
      (Nice b = Nice a \<or> Nice b = Nice r) \<and>
      (NumThreads b = NumThreads a \<or> NumThreads b = NumThreads r) \<and>
      (ItRealValue b = ItRealValue a \<or> ItRealValue b = ItRealValue r) \<and>
      (StartTime b = StartTime a \<or> StartTime b = StartTime r) \<and>
      (VSize b = VSize a \<or> VSize b = VSize r) \<and>
      (RSS b = RSS a \<or> RSS b = RSS r) \<and>
      (RSSLim b = RSSLim a \<or> RSSLim b = RSSLim r) \<and>
      (StartCode b = StartCode a \<or> StartCode b = StartCode r) \<and>
      (EndCode b = EndCode a \<or> EndCode b = EndCode r) \<and>
      (StartStack b = StartStack a \<or> StartStack b = StartStack r) \<and>
      (KStkEsp b = KStkEsp a \<or> KStkEsp b = KStkEsp r) \<and>
      (KStkEip b = KStkEip a \<or> KStkEip b = KStkEip r) \<and>
      (TaskPendingSig b = TaskPendingSig a \<or> TaskPendingSig b = TaskPendingSig r) \<and>
      (TaskBlockSig b = TaskBlockSig a \<or> TaskBlockSig b = TaskBlockSig r) \<and>
      (SigIgnoreSig b = SigIgnoreSig a \<or> SigIgnoreSig b = SigIgnoreSig r) \<and>
      (SigCatchSig b = SigCatchSig a \<or> SigCatchSig b = SigCatchSig r) \<and>
      (WChan b = WChan a \<or> WChan b = WChan r) \<and>
      (NSwap b = NSwap a \<or> NSwap b = NSwap r) \<and>
      (CNSwap b = CNSwap a \<or> CNSwap b = CNSwap r) \<and>
      (ExitSignal b = ExitSignal a \<or> ExitSignal b = ExitSignal r) \<and>
      (Processor b = Processor a \<or> Processor b = Processor r) \<and>
      (RtPriority b = RtPriority a \<or> RtPriority b = RtPriority r) \<and>
      (Policy b = Policy a \<or> Policy b = Policy r) \<and>
      (DelayacctBlkioTicks b = DelayacctBlkioTicks a \<or> DelayacctBlkioTicks b = DelayacctBlkioTicks r) \<and>
      (GuestTime b = GuestTime a \<or> GuestTime b = GuestTime r) \<and>
      (CGuestTime b = CGuestTime a \<or> CGuestTime b = CGuestTime r) \<and>
      (StartData b = StartData a \<or> StartData b = StartData r) \<and>
      (EndData b = EndData a \<or> EndData b = EndData r) \<and>
      (StartBrk b = StartBrk a \<or> StartBrk b = StartBrk r) \<and>
      (ArgStart b = ArgStart a \<or> ArgStart b = ArgStart r) \<and>
      (ArgEnd b = ArgEnd a \<or> ArgEnd b = ArgEnd r) \<and>
      (EnvStart b = EnvStart a \<or> EnvStart b = EnvStart r) \<and>
      (EnvEnd b = EnvEnd a \<or> EnvEnd b = EnvEnd r) \<and>
      (ExitCode b = ExitCode a \<or> ExitCode b = ExitCode r))"

lemma next_list_suffix:
  "next_list rest buf = Inr (r, rest') \<Longrightarrow> \<exists>pre. rest = pre @ rest'"
proof (induction rest arbitrary: buf)
  case Nil
  then show ?case by simp
next
  case (Cons c cs)
  show ?case
  proof (cases "c = newline \<or> c = CHR '' ''")
    case True
    with Cons.prems show ?thesis
      by (auto split: if_splits intro: exI [of _ "[c]"] exI [of _ "[]"])
  next
    case False
    with Cons.prems have "next_list cs (buf @ [c]) = Inr (r, rest')" by simp
    from Cons.IH [OF this] obtain pre where "cs = pre @ rest'" ..
    then have "c # cs = (c # pre) @ rest'" by simp
    then show ?thesis ..
  qed
qed

lemma next_loop_list:
  "cur ss \<le> length (data ss) \<Longrightarrow>
     next_loop ss buf =
       (case next_list (drop (cur ss) (data ss)) buf of
          Inl p \<Rightarrow> Inl p
        | Inr (r, rest') \<Rightarrow> Inr (r, at_rest ss rest'))"
proof (induction ss buf rule: next_loop.induct)
  case (1 ss buf)
  show ?case
  proof (cases "cur ss < length (data ss)")
    case False
    with "1.prems" have "drop (cur ss) (data ss) = []" by simp
    with False show ?thesis
      by (simp add: next_loop.simps [of ss buf] isEOF_def index_def)
  next
    case True
    let ?c = "data ss ! cur ss"
    have d: "drop (cur ss) (data ss) = ?c # drop (Suc (cur ss)) (data ss)"
      using True by (simp add: Cons_nth_drop_Suc)
    have idx: "index (data ss) (cur ss) = Inr ?c"
      using True by (simp add: index_def)
    show ?thesis
    proof (cases "?c = newline")
      case nl: True
      have "at_rest ss (?c # drop (Suc (cur ss)) (data ss)) = ss"
        using True by (simp add: at_rest_def)
      with nl idx d show ?thesis
        by (simp add: next_loop.simps [of ss buf] isEOF_def)
    next
      case nl: False
      show ?thesis
      proof (cases "?c = CHR '' ''")
        case sp: True
        have "at_rest ss (drop (Suc (cur ss)) (data ss)) = ss\<lparr>cur := cur ss + 1\<rparr>"
          using True by (simp add: at_rest_def)
        with nl sp idx d show ?thesis
          by (simp add: next_loop.simps [of ss buf] isEOF_def isSpace_def)
      next
        case sp: False
        have e: "isEOF ss = Inr False" "isSpace ss = Inr False"
          using nl sp idx by (simp_all add: isEOF_def isSpace_def)
        have ih: "next_loop (ss\<lparr>cur := cur ss + 1\<rparr>) (buf @ [?c]) =
            (case next_list (drop (Suc (cur ss)) (data ss)) (buf @ [?c]) of
               Inl p \<Rightarrow> Inl p
             | Inr (r, rest') \<Rightarrow> Inr (r, at_rest (ss\<lparr>cur := cur ss + 1\<rparr>) rest'))"
          using "1.IH" [OF e(1) _ e(2) _ idx] True by simp
        have "next_loop ss buf = next_loop (ss\<lparr>cur := cur ss + 1\<rparr>) (buf @ [?c])"
          using nl sp idx by (simp add: next_loop.simps [of ss buf] isEOF_def isSpace_def)
        with ih nl sp d show ?thesis
          by (simp add: at_rest_def split: sum.splits prod.splits)
      qed
    qed
  qed
qed



lemma parse_list_next:
  "parse_list sf p buf rest =
     (case next_list rest buf of
        Inl pn \<Rightarrow> Inl pn
      | Inr ((tok, x), rest') \<Rightarrow>
          if tok = [] then Inr ((Some sf, None), sf, rest')
          else
            (case fill sf tok p of
               Inl pn \<Rightarrow> Inl pn
             | Inr (sf', Some err) \<Rightarrow> Inr ((None, Some err), sf', rest')
             | Inr (sf', None) \<Rightarrow> parse_list sf' (p + 1) [] rest'))"
proof (induction rest arbitrary: buf)
  case Nil
  show ?case by simp
next
  case (Cons c cs)
  show ?case
  proof (cases "c = newline \<or> c = CHR '' ''")
    case True
    then show ?thesis
      by (auto split: sum.splits prod.splits option.splits)
  next
    case False
    then show ?thesis using Cons.IH [of "buf @ [c]"] by simp
  qed
qed

lemma at_rest_simps [simp]:
  "data (at_rest ss rest) = data ss"
  "cur (at_rest ss rest) = length (data ss) - length rest"
  "endpos (at_rest ss rest) = endpos ss"
  "at_rest (at_rest ss rest) rest' = at_rest ss rest'"
  by (simp_all add: at_rest_def)

lemma Parse_loop_list:
  "cur (stream s) \<le> length (data (stream s)) \<Longrightarrow>
     Parse_loop s p =
       (case parse_list (sfields s) p [] (drop (cur (stream s)) (data (stream s))) of
          Inl pn \<Rightarrow> Inl pn
        | Inr (r, sf', rest') \<Rightarrow> Inr (r, s\<lparr>stream := at_rest (stream s) rest', sfields := sf'\<rparr>))"
proof (induction s p rule: Parse_loop.induct)
  case (1 s p)
  let ?rest = "drop (cur (stream s)) (data (stream s))"
  have nt: "next_token (stream s) =
      (case next_list ?rest [] of Inl pn \<Rightarrow> Inl pn
       | Inr (r, rest') \<Rightarrow> Inr (r, at_rest (stream s) rest'))"
    using "1.prems" by (simp add: next_token_def next_loop_list)
  show ?case
  proof (cases "next_list ?rest []")
    case (Inl pn)
    with nt show ?thesis
      by (simp add: Parse_loop.simps [of s p] parse_list_next [of _ _ _ ?rest])
  next
    case (Inr a)
    then obtain tok x rest' where a: "next_list ?rest [] = Inr ((tok, x), rest')"
      by (cases a) auto
    from next_list_suffix [OF a] obtain pre where pre: "?rest = pre @ rest'" ..
    have "data (stream s) = take (cur (stream s)) (data (stream s)) @ pre @ rest'"
      using pre by (metis append_take_drop_id)
    then have len: "length (data (stream s)) - length rest' = length (take (cur (stream s)) (data (stream s)) @ pre)"
      by (metis add_diff_cancel_right' append.assoc length_append)
    have dr: "drop (length (data (stream s)) - length rest') (data (stream s)) = rest'"
      using \<open>data (stream s) = take (cur (stream s)) (data (stream s)) @ pre @ rest'\<close> len
      by (metis append.assoc append_eq_conv_conj)
    have nt': "next_token (stream s) = Inr ((tok, x), at_rest (stream s) rest')"
      using nt a by simp
    show ?thesis
    proof (cases "tok = []")
      case True
      with nt' a show ?thesis
        by (simp add: Parse_loop.simps [of s p] parse_list_next [of _ _ _ ?rest])
    next
      case False
      show ?thesis
      proof (cases "fill (sfields s) tok p")
        case (Inl pn)
        with False nt' a show ?thesis
          by (simp add: Parse_loop.simps [of s p] parse_list_next [of _ _ _ ?rest])
      next
        case (Inr b)
        then obtain sf' e where b: "fill (sfields s) tok p = Inr (sf', e)"
          by (cases b) auto
        show ?thesis
        proof (cases e)
          case (Some err)
          with b False nt' a show ?thesis
            by (simp add: Parse_loop.simps [of s p] parse_list_next [of _ _ _ ?rest])
        next
          case None
          have ih: "Parse_loop (s\<lparr>stream := at_rest (stream s) rest', sfields := sf'\<rparr>) (p + 1) =
              (case parse_list sf' (p + 1) [] rest' of
                 Inl pn \<Rightarrow> Inl pn
               | Inr (r, sf'', rest'') \<Rightarrow>
                   Inr (r, s\<lparr>stream := at_rest (stream s) rest'', sfields := sf''\<rparr>))"
            using "1.IH" [OF nt' refl refl False b [unfolded None] refl refl] dr
            by (simp split: sum.splits prod.splits)
          have "Parse_loop s p =
              Parse_loop (s\<lparr>stream := at_rest (stream s) rest', sfields := sf'\<rparr>) (p + 1)"
            using b None False nt' by (simp add: Parse_loop.simps [of s p])
          with ih b None False a show ?thesis
            by (simp add: parse_list_next [of _ _ _ ?rest])
        qed
      qed
    qed
  qed
qed


lemma Parse_list:
  "ReadFile (pf s) = (d, None) \<Longrightarrow>
     Parse ReadFile s =
       (case parse_list (sfields s) 1 [] d of
          Inl pn \<Rightarrow> Inl pn
        | Inr (r, sf', rest') \<Rightarrow>
            Inr (r, s\<lparr>stream := \<lparr> data = d, cur = length d - length rest', endpos = length d \<rparr>,
                       sfields := sf'\<rparr>))"
  by (simp add: Parse_def Parse_loop_list at_rest_def split: sum.splits prod.splits)

lemma drop_at_rest:
  assumes "cur ss \<le> length (data ss)" and "drop (cur ss) (data ss) = pre @ rest'"
  shows "drop (length (data ss) - length rest') (data ss) = rest'"
proof -
  have d: "data ss = (take (cur ss) (data ss) @ pre) @ rest'"
    using assms(2) by (metis append.assoc append_take_drop_id)
  then have "length (data ss) - length rest' = length (take (cur ss) (data ss) @ pre)"
    by (metis add_diff_cancel_right' length_append)
  with d show ?thesis
    by (metis append_eq_conv_conj)
qed

section \<open>The schema table\<close>

lemma fieldParseMap_None:
  "progress < 1 \<or> 52 < progress \<Longrightarrow> fieldParseMap progress = None"
  unfolding fieldParseMap_def fieldParseList_def by auto

lemma fieldParseMap_3: "fieldParseMap 3 = Some parseState"
  unfolding fieldParseMap_def fieldParseList_def by simp

lemma parseState_Cons: "parseState (c # cs) sf = Inr (sf\<lparr>State := of_char c\<rparr>, None)"
  by (simp add: parseState_def Let_def)

lemma fill_at:
  "fill sf tok 1 = Inr (sf\<lparr>Pid := fst (int32Cover tok)\<rparr>, snd (int32Cover tok))"
  "fill sf tok 2 = Inr (sf\<lparr>Comm := tok\<rparr>, None)"
  "fill sf tok 3 = parseState tok sf"
  "fill sf tok 4 = Inr (sf\<lparr>PPid := fst (int32Cover tok)\<rparr>, snd (int32Cover tok))"
  "fill sf tok 5 = Inr (sf\<lparr>PGrp := fst (int32Cover tok)\<rparr>, snd (int32Cover tok))"
  "fill sf tok 6 = Inr (sf\<lparr>Session := fst (int32Cover tok)\<rparr>, snd (int32Cover tok))"
  "fill sf tok 7 = Inr (sf\<lparr>TTYNR := fst (int32Cover tok)\<rparr>, snd (int32Cover tok))"
  "fill sf tok 8 = Inr (sf\<lparr>TPGid := fst (int32Cover tok)\<rparr>, snd (int32Cover tok))"
  "fill sf tok 9 = Inr (sf\<lparr>TaskFlags := fst (uint32Cover tok)\<rparr>, snd (uint32Cover tok))"
  "fill sf tok 10 = Inr (sf\<lparr>MinFlt := fst (uint64Cover tok)\<rparr>, snd (uint64Cover tok))"
  "fill sf tok 11 = Inr (sf\<lparr>CMinFlt := fst (uint64Cover tok)\<rparr>, snd (uint64Cover tok))"
  "fill sf tok 12 = Inr (sf\<lparr>MajFlt := fst (uint64Cover tok)\<rparr>, snd (uint64Cover tok))"
  "fill sf tok 13 = Inr (sf\<lparr>MajFlt := fst (uint64Cover tok)\<rparr>, snd (uint64Cover tok))"
  "fill sf tok 14 = Inr (sf\<lparr>UTime := fst (uint64Cover tok)\<rparr>, snd (uint64Cover tok))"
  "fill sf tok 15 = Inr (sf\<lparr>STime := fst (uint64Cover tok)\<rparr>, snd (uint64Cover tok))"
  "fill sf tok 16 = Inr (sf\<lparr>CUTime := fst (int64Cover tok)\<rparr>, snd (int64Cover tok))"
  "fill sf tok 17 = Inr (sf\<lparr>CSTime := fst (int64Cover tok)\<rparr>, snd (int64Cover tok))"
  "fill sf tok 18 = Inr (sf\<lparr>Priority := fst (int64Cover tok)\<rparr>, snd (int64Cover tok))"
  "fill sf tok 19 = Inr (sf\<lparr>Nice := fst (int64Cover tok)\<rparr>, snd (int64Cover tok))"
  "fill sf tok 20 = Inr (sf\<lparr>NumThreads := fst (int64Cover tok)\<rparr>, snd (int64Cover tok))"
  "fill sf tok 21 = Inr (sf\<lparr>ItRealValue := fst (int64Cover tok)\<rparr>, snd (int64Cover tok))"
  "fill sf tok 22 = Inr (sf\<lparr>StartTime := fst (uint64Cover tok)\<rparr>, snd (uint64Cover tok))"
  "fill sf tok 23 = Inr (sf\<lparr>VSize := fst (uint64Cover tok)\<rparr>, snd (uint64Cover tok))"
  "fill sf tok 24 = Inr (sf\<lparr>RSS := fst (uint64Cover tok)\<rparr>, snd (uint64Cover tok))"
  "fill sf tok 25 = Inr (sf\<lparr>RSSLim := fst (uint64Cover tok)\<rparr>, snd (uint64Cover tok))"
  "fill sf tok 26 = Inr (sf\<lparr>StartCode := fst (uint64Cover tok)\<rparr>, snd (uint64Cover tok))"
  "fill sf tok 27 = Inr (sf\<lparr>EndCode := fst (uint64Cover tok)\<rparr>, snd (uint64Cover tok))"
  "fill sf tok 28 = Inr (sf\<lparr>StartStack := fst (uint64Cover tok)\<rparr>, snd (uint64Cover tok))"
  "fill sf tok 29 = Inr (sf\<lparr>KStkEsp := fst (uint64Cover tok)\<rparr>, snd (uint64Cover tok))"
  "fill sf tok 30 = Inr (sf\<lparr>KStkEip := fst (uint64Cover tok)\<rparr>, snd (uint64Cover tok))"
  "fill sf tok 31 = Inr (sf\<lparr>TaskPendingSig := fst (uint64Cover tok)\<rparr>, snd (uint64Cover tok))"
  "fill sf tok 32 = Inr (sf\<lparr>TaskBlockSig := fst (uint64Cover tok)\<rparr>, snd (uint64Cover tok))"
  "fill sf tok 33 = Inr (sf\<lparr>SigIgnoreSig := fst (uint64Cover tok)\<rparr>, snd (uint64Cover tok))"
  "fill sf tok 34 = Inr (sf\<lparr>SigCatchSig := fst (uint64Cover tok)\<rparr>, snd (uint64Cover tok))"
  "fill sf tok 35 = Inr (sf\<lparr>WChan := fst (uint64Cover tok)\<rparr>, snd (uint64Cover tok))"
  "fill sf tok 36 = Inr (sf\<lparr>NSwap := fst (uint64Cover tok)\<rparr>, snd (uint64Cover tok))"
  "fill sf tok 37 = Inr (sf\<lparr>CNSwap := fst (uint64Cover tok)\<rparr>, snd (uint64Cover tok))"
  "fill sf tok 38 = Inr (sf\<lparr>ExitSignal := fst (int32Cover tok)\<rparr>, snd (int32Cover tok))"
  "fill sf tok 39 = Inr (sf\<lparr>Processor := fst (int32Cover tok)\<rparr>, snd (int32Cover tok))"
  "fill sf tok 40 = Inr (sf\<lparr>RtPriority := fst (uint32Cover tok)\<rparr>, snd (uint32Cover tok))"
  "fill sf tok 41 = Inr (sf\<lparr>Policy := fst (uint32Cover tok)\<rparr>, snd (uint32Cover tok))"
  "fill sf tok 42 = Inr (sf\<lparr>DelayacctBlkioTicks := fst (uint64Cover tok)\<rparr>, snd (uint64Cover tok))"
  "fill sf tok 43 = Inr (sf\<lparr>GuestTime := fst (uint64Cover tok)\<rparr>, snd (uint64Cover tok))"
  "fill sf tok 44 = Inr (sf\<lparr>CGuestTime := fst (int64Cover tok)\<rparr>, snd (int64Cover tok))"
  "fill sf tok 45 = Inr (sf\<lparr>StartData := fst (uint64Cover tok)\<rparr>, snd (uint64Cover tok))"
  "fill sf tok 46 = Inr (sf\<lparr>EndData := fst (uint64Cover tok)\<rparr>, snd (uint64Cover tok))"
  "fill sf tok 47 = Inr (sf\<lparr>StartBrk := fst (uint64Cover tok)\<rparr>, snd (uint64Cover tok))"
  "fill sf tok 48 = Inr (sf\<lparr>ArgStart := fst (uint64Cover tok)\<rparr>, snd (uint64Cover tok))"
  "fill sf tok 49 = Inr (sf\<lparr>ArgEnd := fst (uint64Cover tok)\<rparr>, snd (uint64Cover tok))"
  "fill sf tok 50 = Inr (sf\<lparr>EnvStart := fst (uint64Cover tok)\<rparr>, snd (uint64Cover tok))"
  "fill sf tok 51 = Inr (sf\<lparr>EnvEnd := fst (uint64Cover tok)\<rparr>, snd (uint64Cover tok))"
  "fill sf tok 52 = Inr (sf\<lparr>ExitCode := fst (int32Cover tok)\<rparr>, snd (int32Cover tok))"
  unfolding fill_def fieldParseMap_def fieldParseList_def
  by (simp_all add: parseState_def split: prod.splits option.splits sum.splits list.splits)


lemma position_disj:
  fixes p :: int
  shows "p < 1 \<or> 52 < p \<or> p = 1 \<or> p = 2 \<or> p = 3 \<or> p = 4 \<or> p = 5 \<or> p = 6 \<or> p = 7 \<or> p = 8 \<or> p = 9 \<or> p = 10 \<or> p = 11 \<or> p = 12 \<or> p = 13 \<or> p = 14 \<or> p = 15 \<or> p = 16 \<or> p = 17 \<or> p = 18 \<or> p = 19 \<or> p = 20 \<or> p = 21 \<or> p = 22 \<or> p = 23 \<or> p = 24 \<or> p = 25 \<or> p = 26 \<or> p = 27 \<or> p = 28 \<or> p = 29 \<or> p = 30 \<or> p = 31 \<or> p = 32 \<or> p = 33 \<or> p = 34 \<or> p = 35 \<or> p = 36 \<or> p = 37 \<or> p = 38 \<or> p = 39 \<or> p = 40 \<or> p = 41 \<or> p = 42 \<or> p = 43 \<or> p = 44 \<or> p = 45 \<or> p = 46 \<or> p = 47 \<or> p = 48 \<or> p = 49 \<or> p = 50 \<or> p = 51 \<or> p = 52"
  by presburger

lemma fill_outside: "p < 1 \<or> 52 < p \<Longrightarrow> fill sf tok p = Inr (sf, None)"
  by (simp add: fill_def fieldParseMap_None)

lemma cover_values:
  "int32Cover ''1'' = (1, None)" "int32Cover ''0'' = (0, None)" "int32Cover ''-1'' = (- 1, None)"
  "uint32Cover ''4210944'' = (4210944, None)" "uint64Cover ''10'' = (10, None)"
  "uint64Cover ''0'' = (0, None)"
  by code_simp+

lemma fill_frame_from_10:
  assumes "10 \<le> p" and "fill sf tok p = Inr (sf', e)"
  shows "Pid sf' = Pid sf \<and> Comm sf' = Comm sf \<and> State sf' = State sf \<and>
         PPid sf' = PPid sf \<and> TaskFlags sf' = TaskFlags sf"
  using position_disj [of p] assms
  by (elim disjE) (auto simp: fill_at fill_outside)

lemma parse_list_frame_from_10:
  "10 \<le> p \<Longrightarrow> parse_list sf p buf rest = Inr ((Some sf', None), x) \<Longrightarrow>
     Pid sf' = Pid sf \<and> Comm sf' = Comm sf \<and> State sf' = State sf \<and>
     PPid sf' = PPid sf \<and> TaskFlags sf' = TaskFlags sf"
proof (induction rest arbitrary: sf p buf)
  case Nil
  then show ?case by simp
next
  case (Cons c cs)
  show ?case
  proof (cases "c = newline \<or> c = CHR '' ''")
    case False
    with Cons.prems Cons.IH [of p sf "buf @ [c]"] show ?thesis by simp
  next
    case True
    show ?thesis
    proof (cases "buf = []")
      case True
      with \<open>c = newline \<or> c = CHR '' ''\<close> Cons.prems show ?thesis
        by (auto split: if_splits)
    next
      case False
      from Cons.prems(2) False True obtain sf1 where
        f: "fill sf buf p = Inr (sf1, None)" and
        r: "sf' = sf1 \<or> parse_list sf1 (p + 1) [] cs = Inr ((Some sf', None), x)"
        by (auto split: if_splits sum.splits prod.splits option.splits)
      from fill_frame_from_10 [OF Cons.prems(1) f]
      have k1: "Pid sf1 = Pid sf \<and> Comm sf1 = Comm sf \<and> State sf1 = State sf \<and>
         PPid sf1 = PPid sf \<and> TaskFlags sf1 = TaskFlags sf" .
      from r show ?thesis
      proof
        assume "sf' = sf1"
        with k1 show ?thesis by simp
      next
        assume "parse_list sf1 (p + 1) [] cs = Inr ((Some sf', None), x)"
        from Cons.IH [OF _ this] Cons.prems(1) k1 show ?thesis by simp
      qed
    qed
  qed
qed

text \<open>
  Claim C8. For every position outside 1..52 and every token, \<open>fill\<close> returns no error
  and returns the record as it received it: the table has no entry there, so no closure
  runs.
\<close>

theorem fill_outside_schema:
  "progress < 1 \<or> 52 < progress \<Longrightarrow> fill sf field progress = Inr (sf, None)"
  by (rule fill_outside)

theorem fill_outside_schema_witness:
  "((53::int) < 1 \<or> 52 < (53::int)) \<and>
   fill zeroStatField ''0'' 53 = Inr (zeroStatField, None) \<and>
   fill zeroStatField ''x'' 0 = Inr (zeroStatField, None)"
  using fill_outside_schema [of 53 zeroStatField "''0''"]
    fill_outside_schema [of 0 zeroStatField "''x''"]
  by simp

text \<open>
  Claim C7. For every non-empty token at position 3 the conversion returns no error (and
  does not panic): the state field receives the first byte of the token, converted to
  \<open>StatTaskState\<close>, and nothing else changes. For the eleven known codes that value is the
  named constant; any other byte is stored as it is.
\<close>

theorem fill_state_never_fails:
  "field \<noteq> [] \<Longrightarrow>
     fill sf field 3 = Inr (sf\<lparr>State := of_char (hd field)\<rparr>, None) \<and>
     (of_char (CHR ''R'') = Running \<and> of_char (CHR ''S'') = Sleeping \<and>
      of_char (CHR ''D'') = DiskSleep \<and> of_char (CHR ''Z'') = Zombie \<and>
      of_char (CHR ''T'') = Stopped \<and> of_char (CHR ''t'') = TracingStop \<and>
      of_char (CHR ''W'') = PagingWaking \<and> of_char (CHR ''X'') = Dead \<and>
      of_char (CHR ''x'') = Dead2633To313 \<and> of_char (CHR ''K'') = Wakekill \<and>
      of_char (CHR ''P'') = Parked)"
  by (cases field)
    (simp_all add: fill_def fieldParseMap_3 parseState_Cons Running_def Sleeping_def
      DiskSleep_def Zombie_def Stopped_def TracingStop_def PagingWaking_def Dead_def
      Dead2633To313_def Wakekill_def Parked_def)

theorem fill_state_never_fails_witness:
  "''S'' \<noteq> [] \<and>
   fill zeroStatField ''S'' 3 = Inr (zeroStatField\<lparr>State := Sleeping\<rparr>, None) \<and>
   fill zeroStatField ''I'' 3 = Inr (zeroStatField\<lparr>State := 73\<rparr>, None)"
  using fill_state_never_fails [of "''S''" zeroStatField]
    fill_state_never_fails [of "''I''" zeroStatField]
  by (simp add: Sleeping_def)

section \<open>Runs on sample buffers\<close>

text \<open>
  Claim C2 (the code departs from it). A buffer that ends without a newline: after the
  last byte the cursor equals the length of the buffer, \<open>isEOF\<close> indexes the buffer there
  and the run panics. The last field is not decoded and no record is returned.
\<close>

theorem Parse_panics_without_newline:
  "Parse (\<lambda>_. (''1 (init) S'', None)) (NewStat ''/proc/1/stat'') = Inl IndexOutOfRange \<and>
   Parse (\<lambda>_. (''1'', None)) (NewStat ''/proc/1/stat'') = Inl IndexOutOfRange"
  by code_simp

text \<open>
  Claim C1 (the code departs from it). On the well-formed record \<open>stat_record\<close> the decode
  succeeds, but the 13th token (7) is stored in \<open>MajFlt\<close>, over the 12th token (5), and
  \<open>CMajFlt\<close> keeps its zero value.
\<close>

theorem Parse_position_13_overwrites_MajFlt:
  "returned (Parse (\<lambda>_. (stat_record, None)) (NewStat ''/proc/1/stat'')) =
     Inr (Some \<lparr>
       Pid = 1, Comm = ''(init)'', State = Sleeping, PPid = 0, PGrp = 1, Session = 1,
       TTYNR = 0, TPGid = - 1, TaskFlags = 4210944, MinFlt = 10, CMinFlt = 0, MajFlt = 7,
       CMajFlt = 0, UTime = 14, STime = 15, CUTime = 16, CSTime = 17, Priority = 18,
       Nice = 19, NumThreads = 20, ItRealValue = 21, StartTime = 22, VSize = 23, RSS = 24,
       RSSLim = 25, StartCode = 26, EndCode = 27, StartStack = 28, KStkEsp = 29,
       KStkEip = 30, TaskPendingSig = 31, TaskBlockSig = 32, SigIgnoreSig = 33,
       SigCatchSig = 34, WChan = 35, NSwap = 36, CNSwap = 37, ExitSignal = 38,
       Processor = 39, RtPriority = 40, Policy = 41, DelayacctBlkioTicks = 42,
       GuestTime = 43, CGuestTime = 44, StartData = 45, EndData = 46, StartBrk = 47,
       ArgStart = 48, ArgEnd = 49, EnvStart = 50, EnvEnd = 51, ExitCode = 52 \<rparr>, None)"
  by code_simp

text \<open>
  Claim C10. On \<open>double_space_record\<close> the driver stops at the empty token between the
  two spaces (which \<open>next\<close> returns with a nil error) and returns a nil error with a record
  whose fields after position 3 hold their zero values. In every state of the loop the
  error value \<open>e\<close> that comes with the token has no part in what the driver does: on the
  empty token it returns the record and a nil error, on any other token it goes on to
  \<open>fill\<close>. On the buffer \<open>7\<close>, newline, the token comes with \<open>erreof\<close> and is decoded
  all the same; the loop ends at the next, empty token.
\<close>

theorem Parse_stops_at_empty_token:
  "returned (Parse (\<lambda>_. (double_space_record, None)) (NewStat ''/proc/1/stat'')) =
     Inr (Some (zeroStatField\<lparr>Pid := 1, Comm := ''(init)'', State := Sleeping\<rparr>), None) \<and>
   returned (next_token \<lparr>data = double_space_record, cur = 11, endpos = 40\<rparr>) =
     Inr ([], None) \<and>
   (next_token (stream s) = Inr (([], e), ss') \<longrightarrow>
      Parse_loop s p = Inr ((Some (sfields s), None), s\<lparr>stream := ss'\<rparr>)) \<and>
   (next_token (stream s) = Inr ((field, e), ss') \<longrightarrow> field \<noteq> [] \<longrightarrow>
      Parse_loop s p =
        (case fill (sfields s) field p of
           Inl pn \<Rightarrow> Inl pn
         | Inr (sf', Some err) \<Rightarrow> Inr ((None, Some err), s\<lparr>stream := ss', sfields := sf'\<rparr>)
         | Inr (sf', None) \<Rightarrow> Parse_loop (s\<lparr>stream := ss', sfields := sf'\<rparr>) (p + 1)))"
proof -
  have "returned (Parse (\<lambda>_. (double_space_record, None)) (NewStat ''/proc/1/stat'')) =
     Inr (Some (zeroStatField\<lparr>Pid := 1, Comm := ''(init)'', State := Sleeping\<rparr>), None)"
    by code_simp
  moreover have "returned (next_token \<lparr>data = double_space_record, cur = 11, endpos = 40\<rparr>) =
     Inr ([], None)"
    by code_simp
  moreover have "next_token (stream s) = Inr (([], e), ss') \<longrightarrow>
      Parse_loop s p = Inr ((Some (sfields s), None), s\<lparr>stream := ss'\<rparr>)"
    by (simp add: Parse_loop.simps [of s p])
  moreover have "next_token (stream s) = Inr ((field, e), ss') \<longrightarrow> field \<noteq> [] \<longrightarrow>
      Parse_loop s p =
        (case fill (sfields s) field p of
           Inl pn \<Rightarrow> Inl pn
         | Inr (sf', Some err) \<Rightarrow> Inr ((None, Some err), s\<lparr>stream := ss', sfields := sf'\<rparr>)
         | Inr (sf', None) \<Rightarrow> Parse_loop (s\<lparr>stream := ss', sfields := sf'\<rparr>) (p + 1))"
    by (simp add: Parse_loop.simps [of s p])
  ultimately show ?thesis by blast
qed

theorem Parse_stops_at_empty_token_witness:
  "next_token \<lparr>data = ''7'' @ [newline], cur = 0, endpos = 2\<rparr> =
     Inr ((''7'', Some erreof), \<lparr>data = ''7'' @ [newline], cur = 1, endpos = 2\<rparr>) \<and>
   ''7'' \<noteq> [] \<and>
   fill zeroStatField ''7'' 1 = Inr (zeroStatField\<lparr>Pid := 7\<rparr>, None) \<and>
   next_token \<lparr>data = ''7'' @ [newline], cur = 1, endpos = 2\<rparr> =
     Inr (([], Some erreof), \<lparr>data = ''7'' @ [newline], cur = 1, endpos = 2\<rparr>) \<and>
   Parse_loop \<lparr>pf = ''/proc/7/stat'',
       stream = \<lparr>data = ''7'' @ [newline], cur = 0, endpos = 2\<rparr>,
       sfields = zeroStatField\<rparr> 1 =
     Inr ((Some (zeroStatField\<lparr>Pid := 7\<rparr>), None),
          \<lparr>pf = ''/proc/7/stat'',
           stream = \<lparr>data = ''7'' @ [newline], cur = 1, endpos = 2\<rparr>,
           sfields = zeroStatField\<lparr>Pid := 7\<rparr>\<rparr>)"
proof -
  let ?d = "''7'' @ [newline]"
  let ?s0 = "\<lparr>pf = ''/proc/7/stat'', stream = \<lparr>data = ?d, cur = 0, endpos = 2\<rparr>,
       sfields = zeroStatField\<rparr>"
  let ?s1 = "\<lparr>pf = ''/proc/7/stat'', stream = \<lparr>data = ?d, cur = 1, endpos = 2\<rparr>,
       sfields = zeroStatField\<lparr>Pid := 7\<rparr>\<rparr>"
  have n0: "next_token (stream ?s0) = Inr ((''7'', Some erreof), \<lparr>data = ?d, cur = 1, endpos = 2\<rparr>)"
    by code_simp
  have f0: "fill (sfields ?s0) ''7'' 1 = Inr (zeroStatField\<lparr>Pid := 7\<rparr>, None)"
    by code_simp
  have n1: "next_token (stream ?s1) = Inr (([], Some erreof), \<lparr>data = ?d, cur = 1, endpos = 2\<rparr>)"
    by code_simp
  have step0: "Parse_loop ?s0 1 = Parse_loop ?s1 2"
    using Parse_stops_at_empty_token [of ?s0 "Some erreof" "\<lparr>data = ?d, cur = 1, endpos = 2\<rparr>" 1
        "''7''"] n0 f0
    by simp
  have step1: "Parse_loop ?s1 2 = Inr ((Some (zeroStatField\<lparr>Pid := 7\<rparr>), None), ?s1)"
    using Parse_stops_at_empty_token [of ?s1 "Some erreof" "\<lparr>data = ?d, cur = 1, endpos = 2\<rparr>" 2]
      n1
    by simp
  from step0 step1 n0 f0 n1 show ?thesis by simp
qed

section \<open>The tokens the driver receives from a newline-terminated buffer\<close>

text \<open>
  One call of \<open>next\<close> on a stream whose remaining bytes contain a newline returns the
  first segment of the remaining text (the empty token when that segment is empty, be it
  at a second space or at the newline itself) and leaves a stream of the same kind, whose
  leading segments are the ones that followed.
\<close>

lemma split_space_not_Nil [simp]: "split_space xs \<noteq> []"
  by (induction xs) auto

lemma next_list_segments:
  "newline \<in> set rest \<Longrightarrow>
     \<exists>e rest'. next_list rest buf =
         Inr ((buf @ hd (split_space (before_newline rest)), e), rest') \<and>
       newline \<in> set rest' \<and>
       leading_tokens rest' =
         takeWhile (\<lambda>t. t \<noteq> []) (tl (split_space (before_newline rest)))"
proof (induction rest arbitrary: buf)
  case Nil
  then show ?case by simp
next
  case (Cons c cs)
  show ?case
  proof (cases "c = newline")
    case True
    then show ?thesis by (simp add: before_newline_def leading_tokens_def)
  next
    case nl: False
    with Cons.prems have mem: "newline \<in> set cs" by simp
    show ?thesis
    proof (cases "c = CHR '' ''")
      case True
      with nl mem show ?thesis
        by (simp add: before_newline_def leading_tokens_def newline_def)
    next
      case False
      from Cons.IH [OF mem, of "buf @ [c]"] False nl show ?thesis
        by (simp add: before_newline_def)
    qed
  qed
qed

lemma leading_tokens_hd:
  "leading_tokens rest =
     (if hd (split_space (before_newline rest)) = [] then []
      else hd (split_space (before_newline rest)) #
           takeWhile (\<lambda>t. t \<noteq> []) (tl (split_space (before_newline rest))))"
  unfolding leading_tokens_def
  by (cases "split_space (before_newline rest)") simp_all

lemma next_token_segments:
  assumes "cur ss \<le> length (data ss)" and "newline \<in> set (drop (cur ss) (data ss))"
  shows "\<exists>e ss'. next_token ss =
        Inr ((hd (split_space (before_newline (drop (cur ss) (data ss)))), e), ss') \<and>
      data ss' = data ss \<and> endpos ss' = endpos ss \<and> cur ss' \<le> length (data ss') \<and>
      newline \<in> set (drop (cur ss') (data ss')) \<and>
      leading_tokens (drop (cur ss') (data ss')) =
        takeWhile (\<lambda>t. t \<noteq> []) (tl (split_space (before_newline (drop (cur ss) (data ss)))))"
proof -
  let ?rest = "drop (cur ss) (data ss)"
  from next_list_segments [OF assms(2), of "[]"] obtain e rest' where
    nl: "next_list ?rest [] = Inr ((hd (split_space (before_newline ?rest)), e), rest')" and
    mem: "newline \<in> set rest'" and
    lt: "leading_tokens rest' = takeWhile (\<lambda>t. t \<noteq> []) (tl (split_space (before_newline ?rest)))"
    by auto
  from next_list_suffix [OF nl] obtain pre where pre: "?rest = pre @ rest'" ..
  have dr: "drop (length (data ss) - length rest') (data ss) = rest'"
    using drop_at_rest [OF assms(1) pre] .
  have nt: "next_token ss =
      Inr ((hd (split_space (before_newline ?rest)), e), at_rest ss rest')"
    using assms(1) nl by (simp add: next_token_def next_loop_list)
  show ?thesis
    using nt dr mem lt by (intro exI [of _ e] exI [of _ "at_rest ss rest'"]) simp
qed

text \<open>
  The state of the loop of \<open>Parse\<close> after \<open>k\<close> iterations that continued: \<open>k\<close> leading
  segments have been consumed, and the next call of \<open>next\<close> returns the segment of index
  \<open>k\<close>, or the empty token when there is none left.
\<close>

lemma Parse_iterations_tokens:
  assumes "Parse_iterations k s p = Some (s', p')"
    and "cur (stream s) \<le> length (data (stream s))"
    and "newline \<in> set (drop (cur (stream s)) (data (stream s)))"
  shows "k \<le> length (leading_tokens (drop (cur (stream s)) (data (stream s)))) \<and>
     p' = p + int k \<and>
     (\<exists>e ss'. next_token (stream s') =
        Inr (((leading_tokens (drop (cur (stream s)) (data (stream s))) @ [[]]) ! k, e), ss'))"
  using assms
proof (induction k arbitrary: s p)
  case 0
  from next_token_segments [OF "0.prems"(2,3)] "0.prems"(1) show ?case
    by (auto simp: leading_tokens_hd)
next
  case (Suc k)
  let ?rest = "drop (cur (stream s)) (data (stream s))"
  from next_token_segments [OF Suc.prems(2,3)] obtain e ss' where
    nt: "next_token (stream s) = Inr ((hd (split_space (before_newline ?rest)), e), ss')" and
    d: "data ss' = data (stream s)" and c: "cur ss' \<le> length (data ss')" and
    mem: "newline \<in> set (drop (cur ss') (data ss'))" and
    lt: "leading_tokens (drop (cur ss') (data ss')) =
        takeWhile (\<lambda>t. t \<noteq> []) (tl (split_space (before_newline ?rest)))"
    by auto
  from Suc.prems(1) nt obtain sf' where
    ne: "hd (split_space (before_newline ?rest)) \<noteq> []" and
    it: "Parse_iterations k (s\<lparr>stream := ss', sfields := sf'\<rparr>) (p + 1) = Some (s', p')"
    by (auto split: sum.splits prod.splits if_splits option.splits)
  have l: "leading_tokens ?rest =
      hd (split_space (before_newline ?rest)) # leading_tokens (drop (cur ss') (data ss'))"
    using ne lt by (simp add: leading_tokens_hd [of ?rest])
  from Suc.IH [OF it] c mem l show ?case
    by simp
qed

text \<open>\<open>fill\<close> panics on the empty token only (at position 3).\<close>

lemma fill_returns:
  "tok \<noteq> [] \<Longrightarrow> \<exists>sf' e. fill sf tok p = Inr (sf', e)"
proof (cases "p = 3")
  case True
  assume "tok \<noteq> []"
  with True show ?thesis
    by (cases tok) (simp_all add: fill_at parseState_Cons)
next
  case False
  with position_disj [of p] show ?thesis
    by (elim disjE) (simp_all add: fill_at fill_outside)
qed

text \<open>
  Where the loop of \<open>Parse\<close> ends: after all leading segments, on the empty token, with
  the record; or at the first leading segment that \<open>fill\<close> rejects, with its error.
\<close>

lemma Parse_loop_ends:
  assumes "cur (stream s) \<le> length (data (stream s))"
    and "newline \<in> set (drop (cur (stream s)) (data (stream s)))"
    and "n = length (leading_tokens (drop (cur (stream s)) (data (stream s))))"
  shows "\<exists>k s' p' e ss'. k \<le> n \<and>
     Parse_iterations k s p = Some (s', p') \<and>
     next_token (stream s') =
       Inr (((leading_tokens (drop (cur (stream s)) (data (stream s))) @ [[]]) ! k, e), ss') \<and>
     (if k = n then Parse_loop s p = Inr ((Some (sfields s'), None), s'\<lparr>stream := ss'\<rparr>)
      else (\<exists>sf' err.
         fill (sfields s') (leading_tokens (drop (cur (stream s)) (data (stream s))) ! k) p' =
           Inr (sf', Some err) \<and>
         Parse_loop s p = Inr ((None, Some err), s'\<lparr>stream := ss', sfields := sf'\<rparr>)))"
  using assms
proof (induction n arbitrary: s p)
  case 0
  let ?rest = "drop (cur (stream s)) (data (stream s))"
  from next_token_segments [OF "0.prems"(1,2)] obtain e ss' where
    nt: "next_token (stream s) = Inr ((hd (split_space (before_newline ?rest)), e), ss')"
    by auto
  from "0.prems"(3) have h: "hd (split_space (before_newline ?rest)) = []"
    by (simp add: leading_tokens_hd [of ?rest] split: if_splits)
  have lt: "leading_tokens ?rest = []" using "0.prems"(3) by simp
  have "Parse_loop s p = Inr ((Some (sfields s), None), s\<lparr>stream := ss'\<rparr>)"
    using nt h by (simp add: Parse_loop.simps [of s p])
  with nt h lt show ?case
    by (intro exI [of _ 0] exI [of _ s] exI [of _ p] exI [of _ e] exI [of _ ss']) simp
next
  case (Suc n)
  let ?rest = "drop (cur (stream s)) (data (stream s))"
  let ?t = "hd (split_space (before_newline ?rest))"
  from next_token_segments [OF Suc.prems(1,2)] obtain e ss' where
    nt: "next_token (stream s) = Inr ((?t, e), ss')" and
    d: "data ss' = data (stream s)" and c: "cur ss' \<le> length (data ss')" and
    mem: "newline \<in> set (drop (cur ss') (data ss'))" and
    lt: "leading_tokens (drop (cur ss') (data ss')) =
        takeWhile (\<lambda>t. t \<noteq> []) (tl (split_space (before_newline ?rest)))"
    by auto
  from Suc.prems(3) have ne: "?t \<noteq> []"
    by (auto simp: leading_tokens_hd [of ?rest] split: if_splits)
  have l: "leading_tokens ?rest = ?t # leading_tokens (drop (cur ss') (data ss'))"
    using ne lt by (simp add: leading_tokens_hd [of ?rest])
  with Suc.prems(3) have n: "n = length (leading_tokens (drop (cur ss') (data ss')))"
    by simp
  from fill_returns [OF ne] obtain sf' x where fl: "fill (sfields s) ?t p = Inr (sf', x)"
    by blast
  show ?case
  proof (cases x)
    case (Some err)
    have "Parse_loop s p = Inr ((None, Some err), s\<lparr>stream := ss', sfields := sf'\<rparr>)"
      using nt ne fl Some by (simp add: Parse_loop.simps [of s p])
    with nt fl Some l show ?thesis
      by (intro exI [of _ 0] exI [of _ s] exI [of _ p] exI [of _ e] exI [of _ ss']) simp
  next
    case None
    let ?s1 = "s\<lparr>stream := ss', sfields := sf'\<rparr>"
    have c1: "cur (stream ?s1) \<le> length (data (stream ?s1))" using c by simp
    have m1: "newline \<in> set (drop (cur (stream ?s1)) (data (stream ?s1)))" using mem by simp
    have n1: "n = length (leading_tokens (drop (cur (stream ?s1)) (data (stream ?s1))))"
      using n by simp
    let ?r1 = "drop (cur (stream ?s1)) (data (stream ?s1))"
    have r1: "?r1 = drop (cur ss') (data ss')" by simp
    from Suc.IH [OF c1 m1 n1, of "p + 1"] obtain k s' p' e' ss'' where
      k: "k \<le> n" and
      it: "Parse_iterations k ?s1 (p + 1) = Some (s', p')" and
      nt0: "next_token (stream s') = Inr (((leading_tokens ?r1 @ [[]]) ! k, e'), ss'')" and
      fin0: "if k = n then Parse_loop ?s1 (p + 1) = Inr ((Some (sfields s'), None), s'\<lparr>stream := ss''\<rparr>)
        else (\<exists>sf'' err.
          fill (sfields s') (leading_tokens ?r1 ! k) p' = Inr (sf'', Some err) \<and>
          Parse_loop ?s1 (p + 1) = Inr ((None, Some err), s'\<lparr>stream := ss'', sfields := sf''\<rparr>))"
      by blast
    note nt' = nt0 [unfolded r1] and fin = fin0 [unfolded r1]
    have step: "Parse_loop s p = Parse_loop ?s1 (p + 1)"
      using nt ne fl None by (simp add: Parse_loop.simps [of s p])
    have it': "Parse_iterations (Suc k) s p = Some (s', p')"
      using nt ne fl None it by simp
    show ?thesis
      using k it' nt' fin step l
      by (intro exI [of _ "Suc k"] exI [of _ s'] exI [of _ p'] exI [of _ e'] exI [of _ ss''])
         (simp split: if_splits)
  qed
qed


text \<open>
  Claim C4, as amended. Let the buffer read by \<open>Parse\<close> contain a newline, and let its
  leading segments be the space-delimited segments of the text before the first newline,
  up to the first empty segment. Then:

  \<^item> in every state the loop of \<open>Parse\<close> reaches after \<open>j\<close> iterations, \<open>j\<close> is at most the
    number of leading segments, the position counter is \<open>j + 1\<close>, and the call of \<open>next\<close>
    the driver makes there returns the leading segment of index \<open>j\<close>, or the empty token
    when \<open>j\<close> leading segments have been consumed;

  \<^item> the run of \<open>Parse\<close> ends in one of two ways: after as many iterations as there are
    leading segments, on the empty token, with the record and a nil error; or after fewer,
    at a leading segment that \<open>fill\<close> rejects, with that error and a nil record;

  \<^item> when no segment is empty (single spaces, none leading or trailing) the leading
    segments are all the segments, the last one included, which ends at the newline and
    not at a space.
\<close>

theorem Parse_receives_leading_tokens:
  assumes "ReadFile (pf st) = (d, None)" and "newline \<in> set d"
  shows
    "(Parse_iterations j (st\<lparr>stream := \<lparr>data = d, cur = 0, endpos = length d\<rparr>\<rparr>) 1 = Some (sj, pj) \<longrightarrow>
        j \<le> length (leading_tokens d) \<and> pj = 1 + int j \<and>
        (\<exists>e ss'. next_token (stream sj) = Inr (((leading_tokens d @ [[]]) ! j, e), ss'))) \<and>
     (\<exists>k s p e ss'. k \<le> length (leading_tokens d) \<and>
        Parse_iterations k (st\<lparr>stream := \<lparr>data = d, cur = 0, endpos = length d\<rparr>\<rparr>) 1 = Some (s, p) \<and>
        next_token (stream s) = Inr (((leading_tokens d @ [[]]) ! k, e), ss') \<and>
        (if k = length (leading_tokens d)
         then Parse ReadFile st = Inr ((Some (sfields s), None), s\<lparr>stream := ss'\<rparr>)
         else (\<exists>sf' err.
            fill (sfields s) (leading_tokens d ! k) p = Inr (sf', Some err) \<and>
            Parse ReadFile st = Inr ((None, Some err), s\<lparr>stream := ss', sfields := sf'\<rparr>)))) \<and>
     ([] \<notin> set (split_space (before_newline d)) \<longrightarrow>
        leading_tokens d = split_space (before_newline d))"
proof -
  let ?s0 = "st\<lparr>stream := \<lparr>data = d, cur = 0, endpos = length d\<rparr>\<rparr>"
  have c0: "cur (stream ?s0) \<le> length (data (stream ?s0))" by simp
  have m0: "newline \<in> set (drop (cur (stream ?s0)) (data (stream ?s0)))"
    using assms(2) by simp
  have r0: "drop (cur (stream ?s0)) (data (stream ?s0)) = d" by simp
  have a: "Parse_iterations j ?s0 1 = Some (sj, pj) \<longrightarrow>
        j \<le> length (leading_tokens d) \<and> pj = 1 + int j \<and>
        (\<exists>e ss'. next_token (stream sj) = Inr (((leading_tokens d @ [[]]) ! j, e), ss'))"
    using Parse_iterations_tokens [OF _ c0 m0, of j 1 sj pj] unfolding r0 by blast
  have p: "Parse ReadFile st = Parse_loop ?s0 1"
    using assms(1) by (simp add: Parse_def)
  have b: "\<exists>k s p e ss'. k \<le> length (leading_tokens d) \<and>
        Parse_iterations k ?s0 1 = Some (s, p) \<and>
        next_token (stream s) = Inr (((leading_tokens d @ [[]]) ! k, e), ss') \<and>
        (if k = length (leading_tokens d)
         then Parse ReadFile st = Inr ((Some (sfields s), None), s\<lparr>stream := ss'\<rparr>)
         else (\<exists>sf' err.
            fill (sfields s) (leading_tokens d ! k) p = Inr (sf', Some err) \<and>
            Parse ReadFile st = Inr ((None, Some err), s\<lparr>stream := ss', sfields := sf'\<rparr>)))"
    using Parse_loop_ends [OF c0 m0 refl, of 1] unfolding r0 p .
  have c: "[] \<notin> set (split_space (before_newline d)) \<longrightarrow>
        leading_tokens d = split_space (before_newline d)"
    unfolding leading_tokens_def by (auto simp: takeWhile_eq_all_conv)
  from a b c show ?thesis by blast
qed

theorem Parse_receives_leading_tokens_witness:
  "(\<lambda>_. (short_record, None)) (pf (NewStat ''/proc/7/stat'')) = (short_record, None) \<and>
   newline \<in> set short_record \<and>
   [] \<notin> set (split_space (before_newline short_record)) \<and>
   split_space (before_newline short_record) = [''7'', ''(x)'', ''R''] \<and>
   leading_tokens short_record = [''7'', ''(x)'', ''R''] \<and>
   Parse_iterations 3
     ((NewStat ''/proc/7/stat'')\<lparr>stream := \<lparr>data = short_record, cur = 0,
        endpos = length short_record\<rparr>\<rparr>) 1 =
     Some (\<lparr>pf = ''/proc/7/stat'',
             stream = \<lparr>data = short_record, cur = 7, endpos = length short_record\<rparr>,
             sfields = zeroStatField\<lparr>Pid := 7, Comm := ''(x)'', State := Running\<rparr>\<rparr>, 4) \<and>
   (\<exists>e ss'. next_token \<lparr>data = short_record, cur = 7, endpos = length short_record\<rparr> =
      Inr (([], e), ss')) \<and>
   Parse (\<lambda>_. (short_record, None)) (NewStat ''/proc/7/stat'') =
     Inr ((Some (zeroStatField\<lparr>Pid := 7, Comm := ''(x)'', State := Running\<rparr>), None),
          \<lparr>pf = ''/proc/7/stat'',
           stream = \<lparr>data = short_record, cur = 7, endpos = length short_record\<rparr>,
           sfields = zeroStatField\<lparr>Pid := 7, Comm := ''(x)'', State := Running\<rparr>\<rparr>)"
proof -
  let ?s3 = "\<lparr>pf = ''/proc/7/stat'',
             stream = \<lparr>data = short_record, cur = 7, endpos = length short_record\<rparr>,
             sfields = zeroStatField\<lparr>Pid := 7, Comm := ''(x)'', State := Running\<rparr>\<rparr>"
  have h1: "(\<lambda>_. (short_record, None)) (pf (NewStat ''/proc/7/stat'')) = (short_record, None)"
    by simp
  have h2: "newline \<in> set short_record"
    by (simp add: short_record_def)
  have h3: "Parse_iterations 3
     ((NewStat ''/proc/7/stat'')\<lparr>stream := \<lparr>data = short_record, cur = 0,
        endpos = length short_record\<rparr>\<rparr>) 1 = Some (?s3, 4)"
    by code_simp
  have h4: "split_space (before_newline short_record) = [''7'', ''(x)'', ''R'']"
    by (simp add: short_record_def before_newline_def newline_def)
  have h5: "Parse (\<lambda>_. (short_record, None)) (NewStat ''/proc/7/stat'') =
     Inr ((Some (zeroStatField\<lparr>Pid := 7, Comm := ''(x)'', State := Running\<rparr>), None), ?s3)"
    by code_simp
  note t = Parse_receives_leading_tokens [where ReadFile = "\<lambda>_. (short_record, None)" and
      st = "NewStat ''/proc/7/stat''" and d = short_record and j = 3 and sj = ?s3 and pj = 4,
      OF h1 h2]
  have c3: "[] \<notin> set (split_space (before_newline short_record))"
    using h4 by simp
  from t c3 h4 have lt: "leading_tokens short_record = [''7'', ''(x)'', ''R'']"
    by simp
  from t h3 have "\<exists>e ss'. next_token (stream ?s3) =
      Inr (((leading_tokens short_record @ [[]]) ! 3, e), ss')"
    by blast
  with lt have nx: "\<exists>e ss'. next_token \<lparr>data = short_record, cur = 7,
      endpos = length short_record\<rparr> = Inr (([], e), ss')"
    by simp
  from h1 h2 c3 h4 lt h3 nx h5 show ?thesis
    by (intro conjI)
qed

text \<open>
  The claim as stated fails where two spaces are adjacent. On the buffer \<open>7\<close>, two
  spaces, \<open>8\<close>, newline, the driver receives the token \<open>7\<close>; the next call of \<open>next\<close>
  returns the empty token between the two spaces, with a nil error, and the driver stops
  there: \<open>Parse\<close> returns the record with \<open>Pid\<close> 7 and a nil error, with the cursor at 3,
  in front of \<open>8\<close>, which is never returned. The driver has received one token, while
  the text before the newline has three segments, two of them not empty.
\<close>

theorem Parse_double_space_counterexample:
  "Parse (\<lambda>_. (''7  8'' @ [newline], None)) (NewStat ''/proc/7/stat'') =
     Inr ((Some (zeroStatField\<lparr>Pid := 7\<rparr>), None),
          \<lparr>pf = ''/proc/7/stat'',
           stream = \<lparr>data = ''7  8'' @ [newline], cur = 3, endpos = 5\<rparr>,
           sfields = zeroStatField\<lparr>Pid := 7\<rparr>\<rparr>) \<and>
   Parse_iterations 1
     ((NewStat ''/proc/7/stat'')\<lparr>stream := \<lparr>data = ''7  8'' @ [newline], cur = 0, endpos = 5\<rparr>\<rparr>) 1 =
     Some (\<lparr>pf = ''/proc/7/stat'',
             stream = \<lparr>data = ''7  8'' @ [newline], cur = 2, endpos = 5\<rparr>,
             sfields = zeroStatField\<lparr>Pid := 7\<rparr>\<rparr>, 2) \<and>
   next_token \<lparr>data = ''7  8'' @ [newline], cur = 2, endpos = 5\<rparr> =
     Inr (([], None), \<lparr>data = ''7  8'' @ [newline], cur = 3, endpos = 5\<rparr>) \<and>
   Parse_iterations 2
     ((NewStat ''/proc/7/stat'')\<lparr>stream := \<lparr>data = ''7  8'' @ [newline], cur = 0, endpos = 5\<rparr>\<rparr>) 1 =
     None \<and>
   split_space (before_newline (''7  8'' @ [newline])) = [''7'', [], ''8''] \<and>
   (1::nat) \<noteq> length (split_space (before_newline (''7  8'' @ [newline]))) \<and>
   (1::nat) \<noteq>
     length (filter (\<lambda>t. t \<noteq> []) (split_space (before_newline (''7  8'' @ [newline]))))"
  by code_simp

section \<open>The example record\<close>

lemma parse_list_init_prefix:
  "parse_list sf 1 [] (init_prefix @ rest) =
     parse_list (sf\<lparr>Pid := 1, Comm := ''(init)'', State := Sleeping, PPid := 0, PGrp := 1,
        Session := 1, TTYNR := 0, TPGid := - 1, TaskFlags := 4210944, MinFlt := 10,
        CMinFlt := 0, MajFlt := 0\<rparr>) 14 [] rest"
  by (simp add: init_prefix_def newline_def fill_at cover_values parseState_Cons Sleeping_def)

lemma init_record_run:
  "returned (Parse (\<lambda>_. (init_record, None)) (NewStat ''/proc/1/stat'')) =
     Inr (Some init_fields, None)"
  by code_simp

text \<open>
  Claim C3, as amended. Whatever follows the first thirteen tokens of the example, a
  decode that returns a record returns one with pid 1, comm \<open>(init)\<close> (the second token as
  it stands, parentheses included), state \<open>Sleeping\<close>, ppid 0 and task flags 4210944.
\<close>

theorem Parse_init_prefix:
  assumes "ReadFile (pf s) = (init_prefix @ rest, None)"
    and "returned (Parse ReadFile s) = Inr (Some sf, None)"
  shows "Pid sf = 1 \<and> Comm sf = ''(init)'' \<and> State sf = Sleeping \<and> PPid sf = 0 \<and>
         TaskFlags sf = 4210944"
proof -
  let ?sf13 = "(sfields s)\<lparr>Pid := 1, Comm := ''(init)'', State := Sleeping, PPid := 0, PGrp := 1,
        Session := 1, TTYNR := 0, TPGid := - 1, TaskFlags := 4210944, MinFlt := 10,
        CMinFlt := 0, MajFlt := 0\<rparr>"
  from assms obtain x where "parse_list ?sf13 14 [] rest = Inr ((Some sf, None), x)"
    by (auto simp: Parse_list returned_def parse_list_init_prefix split: sum.splits prod.splits)
  from parse_list_frame_from_10 [OF _ this] show ?thesis by simp
qed

theorem Parse_init_prefix_witness:
  "(\<lambda>_. (init_record, None)) (pf (NewStat ''/proc/1/stat'')) = (init_prefix @ init_rest, None) \<and>
   returned (Parse (\<lambda>_. (init_record, None)) (NewStat ''/proc/1/stat'')) =
     Inr (Some init_fields, None) \<and>
   Pid init_fields = 1 \<and> Comm init_fields = ''(init)'' \<and> State init_fields = Sleeping \<and>
   PPid init_fields = 0 \<and> TaskFlags init_fields = 4210944"
  using Parse_init_prefix [of "\<lambda>_. (init_record, None)" "NewStat ''/proc/1/stat''" init_rest
      init_fields] init_record_run
  by (simp add: init_record_def)

text \<open>
  The claim as stated fails on the comm field: the record returned for the example holds
  the token with its parentheses.
\<close>

theorem Parse_init_comm_counterexample:
  "returned (Parse (\<lambda>_. (init_record, None)) (NewStat ''/proc/1/stat'')) =
     Inr (Some init_fields, None) \<and>
   Comm init_fields = ''(init)'' \<and> Comm init_fields \<noteq> ''init''"
  using init_record_run by (simp add: init_fields_def)

section \<open>Errors of the field decoder\<close>

lemma Parse_iterations_loop:
  "Parse_iterations n s p = Some (s', p') \<Longrightarrow> Parse_loop s p = Parse_loop s' p'"
proof (induction n arbitrary: s p)
  case 0
  then show ?case by simp
next
  case (Suc n)
  from Suc.prems obtain field x ss' sf' where
    nt: "next_token (stream s) = Inr ((field, x), ss')" and ne: "field \<noteq> []" and
    fl: "fill (sfields s) field p = Inr (sf', None)" and
    it: "Parse_iterations n (s\<lparr>stream := ss', sfields := sf'\<rparr>) (p + 1) = Some (s', p')"
    by (auto split: sum.splits prod.splits if_splits option.splits)
  have "Parse_loop s p = Parse_loop (s\<lparr>stream := ss', sfields := sf'\<rparr>) (p + 1)"
    using nt ne fl by (simp add: Parse_loop.simps [of s p])
  with Suc.IH [OF it] show ?case by simp
qed

text \<open>
  Claim C6. Whenever the loop of \<open>Parse\<close>, after any number of iterations, hands a token
  to \<open>fill\<close> and \<open>fill\<close> returns an error, \<open>Parse\<close> returns that error with a nil record.
  The object is left with the cursor just behind that token and with the fields as that
  call of \<open>fill\<close> left them: no later token is read or decoded.
\<close>

theorem Parse_aborts_at_first_error:
  assumes "ReadFile (pf st) = (d, None)"
    and "Parse_iterations n (st\<lparr>stream := \<lparr>data = d, cur = 0, endpos = length d\<rparr>\<rparr>) 1 = Some (s, p)"
    and "next_token (stream s) = Inr ((field, x), ss')"
    and "field \<noteq> []"
    and "fill (sfields s) field p = Inr (sf', Some e)"
  shows "Parse ReadFile st = Inr ((None, Some e), s\<lparr>stream := ss', sfields := sf'\<rparr>)"
proof -
  have "Parse ReadFile st = Parse_loop s p"
    using assms(1) Parse_iterations_loop [OF assms(2)] by (simp add: Parse_def)
  also have "\<dots> = Inr ((None, Some e), s\<lparr>stream := ss', sfields := sf'\<rparr>)"
    using assms(3-5) by (simp add: Parse_loop.simps [of s p])
  finally show ?thesis .
qed

theorem Parse_aborts_at_first_error_witness:
  "Parse_iterations 3
     ((NewStat ''/proc/1/stat'')\<lparr>stream := \<lparr>data = bad_ppid_record, cur = 0,
        endpos = length bad_ppid_record\<rparr>\<rparr>) 1 =
     Some (\<lparr>pf = ''/proc/1/stat'',
             stream = \<lparr>data = bad_ppid_record, cur = 8, endpos = length bad_ppid_record\<rparr>,
             sfields = zeroStatField\<lparr>Pid := 1, Comm := ''(a)'', State := Sleeping\<rparr>\<rparr>, 4) \<and>
   next_token \<lparr>data = bad_ppid_record, cur = 8, endpos = length bad_ppid_record\<rparr> =
     Inr ((''x'', None), \<lparr>data = bad_ppid_record, cur = 10, endpos = length bad_ppid_record\<rparr>) \<and>
   ''x'' \<noteq> [] \<and>
   fill (zeroStatField\<lparr>Pid := 1, Comm := ''(a)'', State := Sleeping\<rparr>) ''x'' 4 =
     Inr (zeroStatField\<lparr>Pid := 1, Comm := ''(a)'', State := Sleeping\<rparr>, Some ErrSyntax) \<and>
   Parse (\<lambda>_. (bad_ppid_record, None)) (NewStat ''/proc/1/stat'') =
     Inr ((None, Some ErrSyntax),
          \<lparr>pf = ''/proc/1/stat'',
           stream = \<lparr>data = bad_ppid_record, cur = 10, endpos = length bad_ppid_record\<rparr>,
           sfields = zeroStatField\<lparr>Pid := 1, Comm := ''(a)'', State := Sleeping\<rparr>\<rparr>)"
proof -
  let ?s3 = "\<lparr>pf = ''/proc/1/stat'',
             stream = \<lparr>data = bad_ppid_record, cur = 8, endpos = length bad_ppid_record\<rparr>,
             sfields = zeroStatField\<lparr>Pid := 1, Comm := ''(a)'', State := Sleeping\<rparr>\<rparr>"
  let ?ss = "\<lparr>data = bad_ppid_record, cur = 10, endpos = length bad_ppid_record\<rparr>"
  let ?sf = "zeroStatField\<lparr>Pid := 1, Comm := ''(a)'', State := Sleeping\<rparr>"
  have h1: "(\<lambda>_. (bad_ppid_record, None)) (pf (NewStat ''/proc/1/stat'')) = (bad_ppid_record, None)"
    by simp
  have h2: "Parse_iterations 3
     ((NewStat ''/proc/1/stat'')\<lparr>stream := \<lparr>data = bad_ppid_record, cur = 0,
        endpos = length bad_ppid_record\<rparr>\<rparr>) 1 = Some (?s3, 4)"
    by code_simp
  have h3: "next_token (stream ?s3) = Inr ((''x'', None), ?ss)"
    by code_simp
  have h4: "''x'' \<noteq> []" by simp
  have h5: "fill (sfields ?s3) ''x'' 4 = Inr (?sf, Some ErrSyntax)"
    by code_simp
  from Parse_aborts_at_first_error [OF h1 h2 h3 h4 h5] h2 h3 h5
  show ?thesis by simp
qed

section \<open>Decoding the same buffer twice\<close>

lemma between_same: "between a b a \<Longrightarrow> b = a"
  by (cases a, cases b) (simp add: between_def)

lemma between_refl: "between a r r"
  by (simp add: between_def)

lemma between_upd:
  "between a b r \<Longrightarrow> between (a\<lparr>Pid := v0\<rparr>) (b\<lparr>Pid := v0\<rparr>) r"
  "between a b r \<Longrightarrow> between (a\<lparr>Comm := v1\<rparr>) (b\<lparr>Comm := v1\<rparr>) r"
  "between a b r \<Longrightarrow> between (a\<lparr>State := v2\<rparr>) (b\<lparr>State := v2\<rparr>) r"
  "between a b r \<Longrightarrow> between (a\<lparr>PPid := v3\<rparr>) (b\<lparr>PPid := v3\<rparr>) r"
  "between a b r \<Longrightarrow> between (a\<lparr>PGrp := v4\<rparr>) (b\<lparr>PGrp := v4\<rparr>) r"
  "between a b r \<Longrightarrow> between (a\<lparr>Session := v5\<rparr>) (b\<lparr>Session := v5\<rparr>) r"
  "between a b r \<Longrightarrow> between (a\<lparr>TTYNR := v6\<rparr>) (b\<lparr>TTYNR := v6\<rparr>) r"
  "between a b r \<Longrightarrow> between (a\<lparr>TPGid := v7\<rparr>) (b\<lparr>TPGid := v7\<rparr>) r"
  "between a b r \<Longrightarrow> between (a\<lparr>TaskFlags := v8\<rparr>) (b\<lparr>TaskFlags := v8\<rparr>) r"
  "between a b r \<Longrightarrow> between (a\<lparr>MinFlt := v9\<rparr>) (b\<lparr>MinFlt := v9\<rparr>) r"
  "between a b r \<Longrightarrow> between (a\<lparr>CMinFlt := v10\<rparr>) (b\<lparr>CMinFlt := v10\<rparr>) r"
  "between a b r \<Longrightarrow> between (a\<lparr>MajFlt := v11\<rparr>) (b\<lparr>MajFlt := v11\<rparr>) r"
  "between a b r \<Longrightarrow> between (a\<lparr>CMajFlt := v12\<rparr>) (b\<lparr>CMajFlt := v12\<rparr>) r"
  "between a b r \<Longrightarrow> between (a\<lparr>UTime := v13\<rparr>) (b\<lparr>UTime := v13\<rparr>) r"
  "between a b r \<Longrightarrow> between (a\<lparr>STime := v14\<rparr>) (b\<lparr>STime := v14\<rparr>) r"
  "between a b r \<Longrightarrow> between (a\<lparr>CUTime := v15\<rparr>) (b\<lparr>CUTime := v15\<rparr>) r"
  "between a b r \<Longrightarrow> between (a\<lparr>CSTime := v16\<rparr>) (b\<lparr>CSTime := v16\<rparr>) r"
  "between a b r \<Longrightarrow> between (a\<lparr>Priority := v17\<rparr>) (b\<lparr>Priority := v17\<rparr>) r"
  "between a b r \<Longrightarrow> between (a\<lparr>Nice := v18\<rparr>) (b\<lparr>Nice := v18\<rparr>) r"
  "between a b r \<Longrightarrow> between (a\<lparr>NumThreads := v19\<rparr>) (b\<lparr>NumThreads := v19\<rparr>) r"
  "between a b r \<Longrightarrow> between (a\<lparr>ItRealValue := v20\<rparr>) (b\<lparr>ItRealValue := v20\<rparr>) r"
  "between a b r \<Longrightarrow> between (a\<lparr>StartTime := v21\<rparr>) (b\<lparr>StartTime := v21\<rparr>) r"
  "between a b r \<Longrightarrow> between (a\<lparr>VSize := v22\<rparr>) (b\<lparr>VSize := v22\<rparr>) r"
  "between a b r \<Longrightarrow> between (a\<lparr>RSS := v23\<rparr>) (b\<lparr>RSS := v23\<rparr>) r"
  "between a b r \<Longrightarrow> between (a\<lparr>RSSLim := v24\<rparr>) (b\<lparr>RSSLim := v24\<rparr>) r"
  "between a b r \<Longrightarrow> between (a\<lparr>StartCode := v25\<rparr>) (b\<lparr>StartCode := v25\<rparr>) r"
  "between a b r \<Longrightarrow> between (a\<lparr>EndCode := v26\<rparr>) (b\<lparr>EndCode := v26\<rparr>) r"
  "between a b r \<Longrightarrow> between (a\<lparr>StartStack := v27\<rparr>) (b\<lparr>StartStack := v27\<rparr>) r"
  "between a b r \<Longrightarrow> between (a\<lparr>KStkEsp := v28\<rparr>) (b\<lparr>KStkEsp := v28\<rparr>) r"
  "between a b r \<Longrightarrow> between (a\<lparr>KStkEip := v29\<rparr>) (b\<lparr>KStkEip := v29\<rparr>) r"
  "between a b r \<Longrightarrow> between (a\<lparr>TaskPendingSig := v30\<rparr>) (b\<lparr>TaskPendingSig := v30\<rparr>) r"
  "between a b r \<Longrightarrow> between (a\<lparr>TaskBlockSig := v31\<rparr>) (b\<lparr>TaskBlockSig := v31\<rparr>) r"
  "between a b r \<Longrightarrow> between (a\<lparr>SigIgnoreSig := v32\<rparr>) (b\<lparr>SigIgnoreSig := v32\<rparr>) r"
  "between a b r \<Longrightarrow> between (a\<lparr>SigCatchSig := v33\<rparr>) (b\<lparr>SigCatchSig := v33\<rparr>) r"
  "between a b r \<Longrightarrow> between (a\<lparr>WChan := v34\<rparr>) (b\<lparr>WChan := v34\<rparr>) r"
  "between a b r \<Longrightarrow> between (a\<lparr>NSwap := v35\<rparr>) (b\<lparr>NSwap := v35\<rparr>) r"
  "between a b r \<Longrightarrow> between (a\<lparr>CNSwap := v36\<rparr>) (b\<lparr>CNSwap := v36\<rparr>) r"
  "between a b r \<Longrightarrow> between (a\<lparr>ExitSignal := v37\<rparr>) (b\<lparr>ExitSignal := v37\<rparr>) r"
  "between a b r \<Longrightarrow> between (a\<lparr>Processor := v38\<rparr>) (b\<lparr>Processor := v38\<rparr>) r"
  "between a b r \<Longrightarrow> between (a\<lparr>RtPriority := v39\<rparr>) (b\<lparr>RtPriority := v39\<rparr>) r"
  "between a b r \<Longrightarrow> between (a\<lparr>Policy := v40\<rparr>) (b\<lparr>Policy := v40\<rparr>) r"
  "between a b r \<Longrightarrow> between (a\<lparr>DelayacctBlkioTicks := v41\<rparr>) (b\<lparr>DelayacctBlkioTicks := v41\<rparr>) r"
  "between a b r \<Longrightarrow> between (a\<lparr>GuestTime := v42\<rparr>) (b\<lparr>GuestTime := v42\<rparr>) r"
  "between a b r \<Longrightarrow> between (a\<lparr>CGuestTime := v43\<rparr>) (b\<lparr>CGuestTime := v43\<rparr>) r"
  "between a b r \<Longrightarrow> between (a\<lparr>StartData := v44\<rparr>) (b\<lparr>StartData := v44\<rparr>) r"
  "between a b r \<Longrightarrow> between (a\<lparr>EndData := v45\<rparr>) (b\<lparr>EndData := v45\<rparr>) r"
  "between a b r \<Longrightarrow> between (a\<lparr>StartBrk := v46\<rparr>) (b\<lparr>StartBrk := v46\<rparr>) r"
  "between a b r \<Longrightarrow> between (a\<lparr>ArgStart := v47\<rparr>) (b\<lparr>ArgStart := v47\<rparr>) r"
  "between a b r \<Longrightarrow> between (a\<lparr>ArgEnd := v48\<rparr>) (b\<lparr>ArgEnd := v48\<rparr>) r"
  "between a b r \<Longrightarrow> between (a\<lparr>EnvStart := v49\<rparr>) (b\<lparr>EnvStart := v49\<rparr>) r"
  "between a b r \<Longrightarrow> between (a\<lparr>EnvEnd := v50\<rparr>) (b\<lparr>EnvEnd := v50\<rparr>) r"
  "between a b r \<Longrightarrow> between (a\<lparr>ExitCode := v51\<rparr>) (b\<lparr>ExitCode := v51\<rparr>) r"
  by (simp_all add: between_def)



lemma parseState_Nil: "parseState [] sf = Inl IndexOutOfRange"
  by (simp add: parseState_def)

lemma fill_two_records:
  assumes "between a b r"
  shows "case fill a tok p of
           Inl pn \<Rightarrow> fill b tok p = Inl pn
         | Inr (a1, e) \<Rightarrow> \<exists>b1. fill b tok p = Inr (b1, e) \<and> between a1 b1 r"
proof (cases "p = 3")
  case True
  with assms show ?thesis
    by (cases tok) (simp_all add: fill_at parseState_Nil parseState_Cons between_upd)
next
  case False
  with position_disj [of p] assms show ?thesis
    by (elim disjE) (simp_all add: fill_at fill_outside between_upd)
qed

lemma fill_between:
  "fill a tok p = Inr (a1, e) \<Longrightarrow> between a b r \<Longrightarrow>
     \<exists>b1. fill b tok p = Inr (b1, e) \<and> between a1 b1 r"
  using fill_two_records [where a = a and b = b and r = r and tok = tok and p = p] by simp

lemma fill_panic_indep:
  "fill a tok p = Inl pn \<Longrightarrow> fill b tok p = Inl pn"
  using fill_two_records [where a = a and b = b and r = b and tok = tok and p = p]
  by (simp add: between_refl)


lemma parse_list_again:
  "parse_list a p buf rest = Inr (res, fa, rest') \<Longrightarrow> between a b fa \<Longrightarrow>
     parse_list b p buf rest = Inr (res, fa, rest')"
proof (induction rest arbitrary: a b p buf)
  case Nil
  then show ?case by simp
next
  case (Cons c cs)
  show ?case
  proof (cases "c = newline \<or> c = CHR '' ''")
    case False
    with Cons.prems Cons.IH [of a p "buf @ [c]" b] show ?thesis by simp
  next
    case sep: True
    show ?thesis
    proof (cases "buf = []")
      case True
      with sep Cons.prems have "fa = a" by (auto split: if_splits)
      with Cons.prems(2) have "b = a" by (simp add: between_same)
      with Cons.prems(1) show ?thesis by simp
    next
      case False
      from Cons.prems(1) False sep obtain a1 e where fa1: "fill a buf p = Inr (a1, e)"
        by (cases "fill a buf p") (auto split: if_splits)
      from fill_between [OF fa1 Cons.prems(2)] obtain b1 where
        fb1: "fill b buf p = Inr (b1, e)" and bt: "between a1 b1 fa" by blast
      show ?thesis
      proof (cases "e = None \<and> c = CHR '' ''")
        case True
        with Cons.prems(1) False fa1 sep
        have "parse_list a1 (p + 1) [] cs = Inr (res, fa, rest')"
          by (auto simp: newline_def split: if_splits)
        from Cons.IH [OF this bt] True False fb1 show ?thesis
          by (auto simp: newline_def)
      next
        case stop: False
        with Cons.prems(1) False fa1 sep have "fa = a1"
          by (cases e) (auto split: if_splits)
        with bt have "b1 = a1" by (simp add: between_same)
        with Cons.prems(1) False fa1 fb1 sep stop show ?thesis
          by (cases e) (auto split: if_splits)
      qed
    qed
  qed
qed


lemma parse_list_panic_indep:
  "parse_list a p buf rest = Inl pn \<Longrightarrow> parse_list b p buf rest = Inl pn"
proof (induction rest arbitrary: a b p buf)
  case Nil
  then show ?case by simp
next
  case (Cons c cs)
  show ?case
  proof (cases "c = newline \<or> c = CHR '' ''")
    case False
    with Cons.prems Cons.IH [of a p "buf @ [c]" b] show ?thesis by simp
  next
    case sep: True
    show ?thesis
    proof (cases "buf = []")
      case True
      with sep Cons.prems show ?thesis by (auto split: if_splits)
    next
      case False
      show ?thesis
      proof (cases "fill a buf p")
        case (Inl pn')
        with Cons.prems False sep have "pn' = pn" by (auto split: if_splits)
        with Inl fill_panic_indep [of a buf p pn b] False sep show ?thesis
          by (auto split: if_splits)
      next
        case (Inr x)
        then obtain a1 e where fa1: "fill a buf p = Inr (a1, e)" by (cases x) auto
        from fill_between [OF fa1 between_refl [of a b]] obtain b1 where
          fb1: "fill b buf p = Inr (b1, e)" by blast
        from Cons.prems False sep fa1 have
          r: "e = None \<and> c = CHR '' '' \<and> parse_list a1 (p + 1) [] cs = Inl pn"
          by (cases e) (auto split: if_splits)
        from Cons.IH [of a1 "p + 1" "[]" b1] r fb1 False show ?thesis
          by (auto simp: newline_def)
      qed
    qed
  qed
qed

text \<open>
  Claim C9. A decode that returns leaves the \<open>Stat\<close> object in a state from which a
  second decode of the same bytes returns the same result (the same record, or the same
  error with no record) and leaves the object as it is. A decode that panics panics in
  the same way on every object with the same path, whatever its fields hold. (Two decodes
  on two fresh objects are the same term, hence equal.)
\<close>

theorem Parse_twice:
  "(Parse ReadFile s = Inr (res, s') \<longrightarrow> Parse ReadFile s' = Inr (res, s')) \<and>
   (Parse ReadFile s = Inl pn \<longrightarrow> pf t = pf s \<longrightarrow> Parse ReadFile t = Inl pn)"
proof (cases "ReadFile (pf s)")
  case (Pair d err)
  show ?thesis
  proof (cases err)
    case (Some e)
    with Pair show ?thesis by (auto simp: Parse_def)
  next
    case None
    with Pair have rd: "ReadFile (pf s) = (d, None)" by simp
    have first: "Parse ReadFile s = Inr (res, s') \<longrightarrow> Parse ReadFile s' = Inr (res, s')"
    proof
      assume run: "Parse ReadFile s = Inr (res, s')"
      then obtain fa rest' where
        pl: "parse_list (sfields s) 1 [] d = Inr (res, fa, rest')" and
        s': "s' = s\<lparr>stream := \<lparr>data = d, cur = length d - length rest', endpos = length d\<rparr>,
                     sfields := fa\<rparr>"
        by (auto simp: Parse_list [of ReadFile s d, OF rd] split: sum.splits prod.splits)
      from s' rd have rd': "ReadFile (pf s') = (d, None)" by simp
      from parse_list_again [OF pl between_refl] s'
      have pl': "parse_list (sfields s') 1 [] d = Inr (res, fa, rest')" by simp
      have same: "s'\<lparr>stream := \<lparr>data = d, cur = length d - length rest', endpos = length d\<rparr>,
                     sfields := fa\<rparr> = s'"
        by (simp add: s')
      have "Parse ReadFile s' =
          Inr (res, s'\<lparr>stream := \<lparr>data = d, cur = length d - length rest', endpos = length d\<rparr>,
                     sfields := fa\<rparr>)"
        unfolding Parse_list [of ReadFile s' d, OF rd'] pl' by simp
      with same show "Parse ReadFile s' = Inr (res, s')" by simp
    qed
    have second: "Parse ReadFile s = Inl pn \<longrightarrow> pf t = pf s \<longrightarrow> Parse ReadFile t = Inl pn"
    proof (intro impI)
      assume run: "Parse ReadFile s = Inl pn" and same: "pf t = pf s"
      from run have "parse_list (sfields s) 1 [] d = Inl pn"
        by (auto simp: Parse_list [of ReadFile s d, OF rd] split: sum.splits prod.splits)
      from parse_list_panic_indep [OF this] have "parse_list (sfields t) 1 [] d = Inl pn" .
      moreover from same rd have "ReadFile (pf t) = (d, None)" by simp
      ultimately show "Parse ReadFile t = Inl pn"
        by (simp add: Parse_list [of ReadFile t d])
    qed
    from first second show ?thesis ..
  qed
qed

theorem Parse_twice_witness:
  "Parse (\<lambda>_. (short_record, None)) (NewStat ''/proc/7/stat'') =
     Inr ((Some (zeroStatField\<lparr>Pid := 7, Comm := ''(x)'', State := Running\<rparr>), None),
          \<lparr>pf = ''/proc/7/stat'',
           stream = \<lparr>data = short_record, cur = 7, endpos = length short_record\<rparr>,
           sfields = zeroStatField\<lparr>Pid := 7, Comm := ''(x)'', State := Running\<rparr>\<rparr>) \<and>
   Parse (\<lambda>_. (short_record, None))
     \<lparr>pf = ''/proc/7/stat'',
      stream = \<lparr>data = short_record, cur = 7, endpos = length short_record\<rparr>,
      sfields = zeroStatField\<lparr>Pid := 7, Comm := ''(x)'', State := Running\<rparr>\<rparr> =
     Inr ((Some (zeroStatField\<lparr>Pid := 7, Comm := ''(x)'', State := Running\<rparr>), None),
          \<lparr>pf = ''/proc/7/stat'',
           stream = \<lparr>data = short_record, cur = 7, endpos = length short_record\<rparr>,
           sfields = zeroStatField\<lparr>Pid := 7, Comm := ''(x)'', State := Running\<rparr>\<rparr>) \<and>
   Parse (\<lambda>_. (''7 (x) R'', None)) (NewStat ''/proc/7/stat'') = Inl IndexOutOfRange \<and>
   pf ((NewStat ''/proc/7/stat'')\<lparr>sfields := zeroStatField\<lparr>Pid := 7\<rparr>\<rparr>) =
     pf (NewStat ''/proc/7/stat'') \<and>
   Parse (\<lambda>_. (''7 (x) R'', None)) ((NewStat ''/proc/7/stat'')\<lparr>sfields := zeroStatField\<lparr>Pid := 7\<rparr>\<rparr>) =
     Inl IndexOutOfRange"
proof -
  let ?s1 = "\<lparr>pf = ''/proc/7/stat'',
           stream = \<lparr>data = short_record, cur = 7, endpos = length short_record\<rparr>,
           sfields = zeroStatField\<lparr>Pid := 7, Comm := ''(x)'', State := Running\<rparr>\<rparr>"
  let ?res = "(Some (zeroStatField\<lparr>Pid := 7, Comm := ''(x)'', State := Running\<rparr>), None)"
  have h1: "Parse (\<lambda>_. (short_record, None)) (NewStat ''/proc/7/stat'') = Inr (?res, ?s1)"
    by code_simp
  have h2: "Parse (\<lambda>_. (''7 (x) R'', None)) (NewStat ''/proc/7/stat'') = Inl IndexOutOfRange"
    by code_simp
  have h3: "pf ((NewStat ''/proc/7/stat'')\<lparr>sfields := zeroStatField\<lparr>Pid := 7\<rparr>\<rparr>) =
     pf (NewStat ''/proc/7/stat'')"
    by simp
  from Parse_twice [of "\<lambda>_. (short_record, None)" "NewStat ''/proc/7/stat''" ?res ?s1]
    Parse_twice [of "\<lambda>_. (''7 (x) R'', None)" "NewStat ''/proc/7/stat''" _ _ IndexOutOfRange
      "(NewStat ''/proc/7/stat'')\<lparr>sfields := zeroStatField\<lparr>Pid := 7\<rparr>\<rparr>"]
    h1 h2 h3
  show ?thesis by simp
qed

section \<open>Integer conversions\<close>

lemma unat_of_char: "unat (of_char c :: byte) = of_char c"
proof -
  have "(of_char c :: byte) = of_nat (of_char c)" by (simp add: of_nat_of_char)
  then have "unat (of_char c :: byte) = of_char c mod 256" by (simp add: unat_of_nat)
  then show ?thesis by simp
qed

lemma digit_val_digit:
  assumes "is_digit c"
  shows "digit_val (of_char c) = Some (of_char c - 0x30)"
    and "unat (of_char c - 0x30 :: byte) = digit_of c" and "digit_of c \<le> 9"
proof -
  let ?b = "of_char c :: byte"
  from assms have u: "48 \<le> unat ?b" "unat ?b \<le> 57"
    by (simp_all add: is_digit_def unat_of_char)
  then have le: "0x30 \<le> ?b" "?b \<le> 0x39"
    by (simp_all add: word_le_nat_alt)
  then show "digit_val ?b = Some (?b - 0x30)" by (simp add: digit_val_def)
  from le(1) have "unat (?b - 0x30) = unat ?b - unat (0x30 :: byte)" by (rule unat_sub)
  then show "unat (?b - 0x30) = digit_of c" by (simp add: digit_of_def unat_of_char)
  from assms show "digit_of c \<le> 9" unfolding is_digit_def digit_of_def by linarith
qed

lemma digit_val_other:
  assumes "\<not> is_digit c"
  shows "digit_val (of_char c) = None \<or> (\<exists>d. digit_val (of_char c) = Some d \<and> 10 \<le> d)"
proof -
  let ?b = "of_char c :: byte"
  from assms have nd: "\<not> (0x30 \<le> ?b \<and> ?b \<le> 0x39)"
    by (simp add: is_digit_def word_le_nat_alt unat_of_char)
  show ?thesis
  proof (cases "0x61 \<le> lower ?b \<and> lower ?b \<le> 0x7A")
    case False
    with nd show ?thesis by (auto simp: digit_val_def)
  next
    case True
    then have l: "97 \<le> unat (lower ?b)" "unat (lower ?b) \<le> 122"
      by (simp_all add: word_le_nat_alt)
    have "lower ?b - 0x61 + 10 = lower ?b - 0x57" by simp
    moreover have "unat (lower ?b - 0x57) = unat (lower ?b) - unat (0x57 :: byte)"
      using l by (intro unat_sub) (simp add: word_le_nat_alt)
    ultimately have "10 \<le> unat (lower ?b - 0x61 + 10)" using l by simp
    then have "10 \<le> lower ?b - 0x61 + 10" by (simp add: word_le_nat_alt)
    with nd True show ?thesis by (auto simp: digit_val_def)
  qed
qed

lemma cutoff10: "((- 1) div of_nat 10 + 1 :: uint64) = 1844674407370955162"
  by simp

lemma ucast_byte_of_nat: "(ucast (d :: byte) :: uint64) = of_nat (unat d)"
  by simp

lemma unat64_of_nat: "unat (of_nat x :: uint64) = x mod 18446744073709551616"
  by (simp add: unat_of_nat)

lemma ParseUint_loop_scan:
  assumes "maxV < 18446744073709551616"
  shows "n \<le> maxV \<Longrightarrow>
    ParseUint_loop (map of_char s) 10 1844674407370955162 (of_nat maxV) (of_nat n) =
      (case scan_uint maxV n s of (v, e) \<Rightarrow> (of_nat v, e))"
proof (induction s arbitrary: n)
  case Nil
  show ?case by simp
next
  case (Cons c cs)
  show ?case
  proof (cases "is_digit c")
    case False
    from digit_val_other [OF False] show ?thesis
    proof
      assume "digit_val (of_char c) = None"
      with False show ?thesis by simp
    next
      assume "\<exists>d. digit_val (of_char c) = Some d \<and> 10 \<le> d"
      with False show ?thesis by auto
    qed
  next
    case True
    let ?d = "of_char c - 0x30 :: byte"
    let ?k = "digit_of c"
    let ?N = "of_nat n :: uint64"
    let ?n' = "?N * ucast (10 :: byte)"
    let ?n1 = "?n' + ucast ?d"
    let ?M = "of_nat maxV :: uint64"
    note dv = digit_val_digit [OF True]
    have k9: "?k \<le> 9" by (rule dv(3))
    have nd: "\<not> 10 \<le> ?d"
      using dv(2) k9 by (simp add: word_le_nat_alt)
    have n64: "n < 18446744073709551616" using Cons.prems assms by simp
    have un: "unat ?N = n" using n64 by (simp add: unat64_of_nat)
    have um: "unat ?M = maxV" using assms by (simp add: unat64_of_nat)
    have e0: "?n' = of_nat (10 * n)" by simp
    have e1: "?n1 = of_nat (10 * n + ?k)"
      by (simp add: ucast_byte_of_nat dv(2))
    have step: "ParseUint_loop (map of_char (c # cs)) 10 1844674407370955162 ?M ?N =
        (if 1844674407370955162 \<le> ?N then (?M, Some ErrRange)
         else if ?n1 < ?n' \<or> ?M < ?n1 then (?M, Some ErrRange)
         else ParseUint_loop (map of_char cs) 10 1844674407370955162 ?M ?n1)"
      using dv(1) nd by (simp add: Let_def)
    have spec: "scan_uint maxV n (c # cs) =
        (if maxV < 10 * n + ?k then (maxV, Some ErrRange)
         else scan_uint maxV (10 * n + ?k) cs)"
      using True by simp
    show ?thesis
    proof (cases "1844674407370955162 \<le> n")
      case big: True
      then have "(1844674407370955162 :: uint64) \<le> ?N"
        using un by (simp add: word_le_nat_alt)
      moreover from big assms have "maxV < 10 * n + ?k" by simp
      ultimately show ?thesis unfolding step spec by simp
    next
      case small: False
      then have c1: "\<not> (1844674407370955162 :: uint64) \<le> ?N"
        using un by (simp add: word_le_nat_alt)
      from small have m64: "10 * n < 18446744073709551616" by simp
      then have u1: "unat ?n' = 10 * n"
        unfolding e0 by (simp add: unat64_of_nat del: of_nat_mult)
      show ?thesis
      proof (cases "10 * n + ?k < 18446744073709551616")
        case fits: True
        then have u2: "unat ?n1 = 10 * n + ?k"
          unfolding e1 by (simp add: unat64_of_nat del: of_nat_mult of_nat_add)
        have c2: "\<not> ?n1 < ?n'"
          unfolding word_less_nat_alt u1 u2 by simp
        have c3: "?M < ?n1 \<longleftrightarrow> maxV < 10 * n + ?k"
          unfolding word_less_nat_alt um u2 by simp
        show ?thesis
        proof (cases "maxV < 10 * n + ?k")
          case True
          then show ?thesis unfolding step spec using c1 c2 c3 by simp
        next
          case False
          then have "10 * n + ?k \<le> maxV" by simp
          from Cons.IH [OF this]
          have "ParseUint_loop (map of_char cs) 10 1844674407370955162 ?M ?n1 =
              (case scan_uint maxV (10 * n + ?k) cs of (v, e) \<Rightarrow> (of_nat v, e))"
            unfolding e1 .
          then show ?thesis unfolding step spec using False c1 c2 c3 by simp
        qed
      next
        case over: False
        have "(10 * n + ?k) mod 18446744073709551616 = 10 * n + ?k - 18446744073709551616"
          using over m64 k9 by (simp add: mod_if)
        then have "unat ?n1 = 10 * n + ?k - 18446744073709551616"
          unfolding e1 unat64_of_nat .
        then have c2: "?n1 < ?n'"
          unfolding word_less_nat_alt u1 using k9 over by simp
        from over assms have "maxV < 10 * n + ?k" by simp
        then show ?thesis unfolding step spec using c1 c2 by simp
      qed
    qed
  qed
qed

lemma decimal_from_simps [simp]:
  "decimal_from n [] = n"
  "decimal_from n (c # cs) = decimal_from (10 * n + digit_of c) cs"
  by (simp_all add: decimal_from_def)

lemma decimal_from_mono: "n \<le> m \<Longrightarrow> decimal_from n ds \<le> decimal_from m ds"
  by (induction ds arbitrary: n m) simp_all

lemma decimal_from_ge: "n \<le> decimal_from n ds"
proof (induction ds arbitrary: n)
  case Nil
  show ?case by simp
next
  case (Cons c cs)
  have "n \<le> 10 * n + digit_of c" by simp
  also have "\<dots> \<le> decimal_from (10 * n + digit_of c) cs" by (rule Cons.IH)
  finally show ?case by simp
qed

lemma scan_uint_digits:
  "list_all is_digit ds \<Longrightarrow> n \<le> maxV \<Longrightarrow>
     scan_uint maxV n ds =
       (if decimal_from n ds \<le> maxV then (decimal_from n ds, None) else (maxV, Some ErrRange))"
proof (induction ds arbitrary: n)
  case Nil
  then show ?case by simp
next
  case (Cons c cs)
  show ?case
  proof (cases "maxV < 10 * n + digit_of c")
    case True
    with decimal_from_ge [of "10 * n + digit_of c" cs] Cons.prems show ?thesis by simp
  next
    case False
    with Cons.prems Cons.IH [of "10 * n + digit_of c"] show ?thesis by simp
  qed
qed

lemma scan_uint_bad:
  "list_all is_digit ds \<Longrightarrow> \<not> is_digit c \<Longrightarrow> n \<le> maxV \<Longrightarrow>
     scan_uint maxV n (ds @ c # rest) =
       (if decimal_from n ds \<le> maxV then (0, Some ErrSyntax) else (maxV, Some ErrRange))"
proof (induction ds arbitrary: n)
  case Nil
  then show ?case by simp
next
  case (Cons d ds)
  show ?case
  proof (cases "maxV < 10 * n + digit_of d")
    case True
    with decimal_from_ge [of "10 * n + digit_of d" ds] Cons.prems show ?thesis by simp
  next
    case False
    with Cons.prems Cons.IH [of "10 * n + digit_of d"] show ?thesis by simp
  qed
qed

lemma scan_uint_value_le:
  "n \<le> maxV \<Longrightarrow> fst (scan_uint maxV n s) \<le> maxV"
  by (induction s arbitrary: n) simp_all

lemma pow64: "w \<le> 64 \<Longrightarrow> (2::nat) ^ w \<le> 18446744073709551616"
  using power_increasing [of w 64 "2::nat"] by simp

lemma maxVal_of_nat:
  "(push_bit w 1 - 1 :: uint64) = of_nat (2 ^ w - 1)"
  by (simp add: push_bit_of_1 of_nat_diff)

lemma ParseUint_scan:
  assumes "0 < w" and "w \<le> 64"
  shows "ParseUint s 10 w =
    (if s = [] then (0, Some ErrSyntax)
     else case scan_uint (2 ^ w - 1) 0 s of (v, e) \<Rightarrow> (of_nat v, e))"
proof -
  have lt: "(2::nat) ^ w - 1 < 18446744073709551616"
    using pow64 [OF assms(2)] by (simp add: less_eq_Suc_le [symmetric] algebra_simps)
  from ParseUint_loop_scan [OF lt, of 0 s] assms show ?thesis
    by (simp add: ParseUint_def Let_def maxVal_of_nat del: push_bit_of_1)
qed

lemma scan_uint_cases:
  "scan_uint M 0 s =
     (if list_all is_digit s
      then (if decimal s \<le> M then (decimal s, None) else (M, Some ErrRange))
      else (if decimal (takeWhile is_digit s) \<le> M then (0, Some ErrSyntax)
            else (M, Some ErrRange)))"
proof (cases "list_all is_digit s")
  case True
  then show ?thesis by (simp add: scan_uint_digits decimal_def)
next
  case False
  then have ne: "dropWhile is_digit s \<noteq> []"
    by (simp add: list_all_iff)
  then obtain c rest where dw: "dropWhile is_digit s = c # rest"
    by (cases "dropWhile is_digit s") auto
  then have nc: "\<not> is_digit c"
    using hd_dropWhile [OF ne] by simp
  have all: "list_all is_digit (takeWhile is_digit s)"
    by (simp add: list_all_iff) (meson set_takeWhileD)
  have "s = takeWhile is_digit s @ c # rest"
    using dw takeWhile_dropWhile_id [of is_digit s] by simp
  then have "scan_uint M 0 s = scan_uint M 0 (takeWhile is_digit s @ c # rest)" by simp
  also have "\<dots> = (if decimal (takeWhile is_digit s) \<le> M then (0, Some ErrSyntax)
            else (M, Some ErrRange))"
    using scan_uint_bad [OF all nc, of 0 M rest] by (simp add: decimal_def)
  finally show ?thesis using False by simp
qed

lemma ParseUint_error:
  assumes "0 < w" and "w \<le> 64"
  shows "snd (ParseUint s 10 w) =
    (if s \<noteq> [] \<and> list_all is_digit s
     then (if decimal s < 2 ^ w then None else Some ErrRange)
     else (if decimal (takeWhile is_digit s) < 2 ^ w then Some ErrSyntax else Some ErrRange))"
proof -
  have pos: "0 < (2::nat) ^ w" by simp
  have le: "x \<le> 2 ^ w - 1 \<longleftrightarrow> x < 2 ^ w" for x :: nat
    using pos by arith
  show ?thesis
    unfolding ParseUint_scan [OF assms] scan_uint_cases le
    by (cases "s = []") (simp_all add: decimal_def)
qed

lemma ParseInt_nat:
  assumes w: "0 < w" "w \<le> 64" and tok: "tok \<noteq> []"
    and pu: "ParseUint (body_of True tok) 10 w = (of_nat v, e)" and v: "v < 2 ^ w"
  shows "snd (ParseInt tok 10 w) =
    (if e \<noteq> None \<and> e \<noteq> Some ErrRange then e
     else if (\<not> negative True tok \<and> 2 ^ (w - 1) \<le> v) \<or> (negative True tok \<and> 2 ^ (w - 1) < v)
       then Some ErrRange else None)"
proof -
  let ?C = "(2::nat) ^ (w - 1)"
  have v64: "v < 18446744073709551616" using v pow64 [OF w(2)] by simp
  have uv: "unat (of_nat v :: uint64) = v" using v64 by (simp add: unat64_of_nat)
  have pc: "(push_bit (w - 1) 1 :: uint64) = of_nat ?C"
    by (simp add: push_bit_of_1)
  have "?C < 18446744073709551616"
    using power_strict_increasing [of "w - 1" 64 "2::nat"] w by simp
  then have uc: "unat (push_bit (w - 1) 1 :: uint64) = ?C"
    unfolding pc unat64_of_nat by simp
  have ge: "(push_bit (w - 1) 1 :: uint64) \<le> of_nat v \<longleftrightarrow> ?C \<le> v"
    unfolding word_le_nat_alt uv uc ..
  have gt: "(push_bit (w - 1) 1 :: uint64) < of_nat v \<longleftrightarrow> ?C < v"
    unfolding word_less_nat_alt uv uc ..
  let ?cut = "push_bit (w - 1) 1 :: uint64"
  have PI: "ParseInt tok 10 w =
      (case ParseUint (body_of True tok) 10 w of (un, err) \<Rightarrow>
         if err \<noteq> None \<and> err \<noteq> Some ErrRange then (0, err)
         else if \<not> negative True tok \<and> ?cut \<le> un then (?cut - 1, Some ErrRange)
         else if negative True tok \<and> ?cut < un then (- ?cut, Some ErrRange)
         else (if negative True tok then - un else un, None))"
    using tok w
    by (auto simp: ParseInt_def Let_def body_of_def negative_def simp del: push_bit_of_1
        split: prod.splits)
  show ?thesis
    unfolding PI pu using ge gt by (simp del: push_bit_of_1)
qed

lemma in_width_signed:
  "in_width True w (- int d) \<longleftrightarrow> d \<le> 2 ^ (w - 1)"
  "in_width True w (int d) \<longleftrightarrow> d < 2 ^ (w - 1)"
proof -
  have e: "(2::int) ^ (w - 1) = int (2 ^ (w - 1))" by simp
  have p: "0 < (2::nat) ^ (w - 1)" by simp
  show "in_width True w (- int d) \<longleftrightarrow> d \<le> 2 ^ (w - 1)"
    unfolding in_width_def if_True e using p by arith
  show "in_width True w (int d) \<longleftrightarrow> d < 2 ^ (w - 1)"
    unfolding in_width_def if_True e using p by arith
qed

lemma ParseInt_error:
  assumes w: "2 \<le> w" "w \<le> 64"
  shows "snd (ParseInt tok 10 w) =
    (if numeral_token True tok
     then (if in_width True w (token_value True tok) then None else Some ErrRange)
     else (if decimal (digits_before True tok) < 2 ^ w then Some ErrSyntax else Some ErrRange))"
proof (cases "tok = []")
  case True
  then show ?thesis
    by (simp add: ParseInt_def numeral_token_def digits_before_def body_of_def decimal_def)
next
  case False
  let ?body = "body_of True tok"
  let ?C = "(2::nat) ^ (w - 1)"
  let ?M = "(2::nat) ^ w - 1"
  have w0: "0 < w" using w by simp
  have pw: "(2::nat) ^ w = 2 * ?C" using w0 by (cases w) simp_all
  have "(2::nat) ^ 1 \<le> ?C" using w by (intro power_increasing) simp_all
  then have C2: "2 \<le> ?C" by simp
  have iC: "(2::int) ^ (w - 1) = int ?C" by simp
  obtain v e where sc: "scan_uint ?M 0 ?body = (v, e)" by (cases "scan_uint ?M 0 ?body")
  have vM: "v \<le> ?M" using scan_uint_value_le [of 0 ?M ?body] sc by simp
  then have v: "v < 2 ^ w" using pw C2 by simp
  show ?thesis
  proof (cases "?body = []")
    case True
    then have "ParseUint ?body 10 w = (of_nat 0, Some ErrSyntax)"
      by (simp add: ParseUint_def)
    from ParseInt_nat [OF w0 w(2) False this] True show ?thesis
      by (simp add: numeral_token_def digits_before_def decimal_def)
  next
    case ne: False
    then have pu: "ParseUint ?body 10 w = (of_nat v, e)"
      unfolding ParseUint_scan [OF w0 w(2)] sc by simp
    note pi = ParseInt_nat [OF w0 w(2) False pu v]
    show ?thesis
    proof (cases "list_all is_digit ?body")
      case digits: True
      then have nt: "numeral_token True tok" using ne by (simp add: numeral_token_def)
      show ?thesis
      proof (cases "decimal ?body \<le> ?M")
        case True
        with sc digits have "v = decimal ?body" "e = None"
          by (simp_all add: scan_uint_cases)
        with pi nt show ?thesis
          unfolding token_value_def by (auto simp: in_width_signed)
      next
        case False
        with sc digits have ve: "v = ?M" "e = Some ErrRange"
          by (simp_all add: scan_uint_cases)
        from False pw C2 have "?C < decimal ?body" by simp
        with pi nt ve pw C2 show ?thesis
          unfolding token_value_def by (auto simp: in_width_signed)
      qed
    next
      case bad: False
      then have nt: "\<not> numeral_token True tok" by (simp add: numeral_token_def)
      show ?thesis
      proof (cases "decimal (takeWhile is_digit ?body) \<le> ?M")
        case True
        with sc bad have "e = Some ErrSyntax" by (simp add: scan_uint_cases)
        moreover from True pw C2 have "decimal (digits_before True tok) < 2 ^ w"
          by (simp add: digits_before_def)
        ultimately show ?thesis using pi nt by simp
      next
        case False
        with sc bad have ve: "v = ?M" "e = Some ErrRange" by (simp_all add: scan_uint_cases)
        from False pw C2 have "\<not> decimal (digits_before True tok) < 2 ^ w"
          by (simp add: digits_before_def)
        with pi nt ve pw C2 show ?thesis by auto
      qed
    qed
  qed
qed

lemma ParseUint_error_kind:
  assumes "0 < w" and "w \<le> 64"
  shows "snd (ParseUint tok 10 w) =
    (if numeral_token False tok
     then (if in_width False w (token_value False tok) then None else Some ErrRange)
     else (if decimal (digits_before False tok) < 2 ^ w then Some ErrSyntax else Some ErrRange))"
proof -
  have "int (decimal tok) < 2 ^ w \<longleftrightarrow> decimal tok < 2 ^ w"
    by (metis of_nat_less_iff of_nat_numeral of_nat_power)
  then show ?thesis
    unfolding ParseUint_error [OF assms]
    by (simp add: numeral_token_def in_width_def token_value_def digits_before_def body_of_def
        negative_def)
qed

lemma snd_covers:
  "snd (int32Cover s) = snd (ParseInt s 10 32)"
  "snd (uint32Cover s) = snd (ParseUint s 10 32)"
  "snd (int64Cover s) = snd (ParseInt s 10 64)"
  "snd (uint64Cover s) = snd (ParseUint s 10 64)"
  by (simp_all add: int32Cover_def uint32Cover_def int64Cover_def uint64Cover_def
      split: prod.splits)

lemma fill_error_by_kind:
  assumes "field_kind p = Some (sg, w)"
  shows "error_of (fill sf tok p) =
           Inr (if sg then snd (ParseInt tok 10 w) else snd (ParseUint tok 10 w)) \<and>
         (w = 32 \<or> w = 64)"
  using position_disj [of p] assms
  by (elim disjE) (simp_all add: field_kind_def fill_at error_of_def snd_covers)

text \<open>
  Claim C5, as amended. At every integer position: a numeral token whose value lies
  outside the declared width is refused with the out-of-range error; a token that is not
  a numeral (it is empty, or has a character that is neither a digit nor a leading sign of
  a signed position) is refused with the malformed error when the digits in front of that
  character stay below two to the power of the width, and with the out-of-range error when
  they do not; a numeral token within the width is accepted. No value is truncated or
  wrapped.
\<close>

theorem fill_integer_errors:
  assumes "field_kind p = Some (sg, w)"
  shows
    "(numeral_token sg tok \<and> \<not> in_width sg w (token_value sg tok) \<longrightarrow>
        error_of (fill sf tok p) = Inr (Some ErrRange)) \<and>
     (\<not> numeral_token sg tok \<and> decimal (digits_before sg tok) < 2 ^ w \<longrightarrow>
        error_of (fill sf tok p) = Inr (Some ErrSyntax)) \<and>
     (\<not> numeral_token sg tok \<and> 2 ^ w \<le> decimal (digits_before sg tok) \<longrightarrow>
        error_of (fill sf tok p) = Inr (Some ErrRange)) \<and>
     (numeral_token sg tok \<and> in_width sg w (token_value sg tok) \<longrightarrow>
        error_of (fill sf tok p) = Inr None)"
proof -
  from fill_error_by_kind [OF assms] have
    fe: "error_of (fill sf tok p) =
           Inr (if sg then snd (ParseInt tok 10 w) else snd (ParseUint tok 10 w))" and
    w: "w = 32 \<or> w = 64" by simp_all
  from w have w': "2 \<le> w" "w \<le> 64" "0 < w" by auto
  show ?thesis
  proof (cases sg)
    case True
    then show ?thesis
      unfolding fe using ParseInt_error [OF w'(1,2), of tok] by auto
  next
    case False
    then show ?thesis
      unfolding fe using ParseUint_error_kind [OF w'(3) w'(2), of tok] by auto
  qed
qed

lemmas token_defs = numeral_token_def digits_before_def body_of_def negative_def is_digit_def
  decimal_def digit_of_def in_width_def token_value_def

theorem fill_integer_errors_witness:
  "field_kind 1 = Some (True, 32) \<and>
   numeral_token True ''2147483648'' \<and>
   \<not> in_width True 32 (token_value True ''2147483648'') \<and>
   error_of (fill zeroStatField ''2147483648'' 1) = Inr (Some ErrRange) \<and>
   \<not> numeral_token True ''12a'' \<and> decimal (digits_before True ''12a'') < 2 ^ 32 \<and>
   error_of (fill zeroStatField ''12a'' 1) = Inr (Some ErrSyntax) \<and>
   \<not> numeral_token True ''9999999999x'' \<and>
   2 ^ 32 \<le> decimal (digits_before True ''9999999999x'') \<and>
   error_of (fill zeroStatField ''9999999999x'' 1) = Inr (Some ErrRange) \<and>
   numeral_token True ''-2147483648'' \<and>
   in_width True 32 (token_value True ''-2147483648'') \<and>
   error_of (fill zeroStatField ''-2147483648'' 1) = Inr None"
proof -
  have k: "field_kind 1 = Some (True, 32)" by (simp add: field_kind_def)
  have h1: "numeral_token True ''2147483648''"
    "\<not> in_width True 32 (token_value True ''2147483648'')"
    by (simp_all add: token_defs)
  have h2: "\<not> numeral_token True ''12a''" "decimal (digits_before True ''12a'') < 2 ^ 32"
    by (simp_all add: token_defs)
  have h3: "\<not> numeral_token True ''9999999999x''"
    "2 ^ 32 \<le> decimal (digits_before True ''9999999999x'')"
    by (simp_all add: token_defs)
  have h4: "numeral_token True ''-2147483648''"
    "in_width True 32 (token_value True ''-2147483648'')"
    by (simp_all add: token_defs)
  from fill_integer_errors [OF k, of "''2147483648''" zeroStatField]
    fill_integer_errors [OF k, of "''12a''" zeroStatField]
    fill_integer_errors [OF k, of "''9999999999x''" zeroStatField]
    fill_integer_errors [OF k, of "''-2147483648''" zeroStatField]
    k h1 h2 h3 h4
  show ?thesis by simp
qed

text \<open>
  The claim as stated fails for a token whose digits overflow the width before its first
  non-numeric character: the error is the out-of-range error, not the malformed one.
\<close>

lemma fill_overflow_before_letter:
  "error_of (fill zeroStatField ''9999999999x'' 1) = Inr (Some ErrRange)"
  by code_simp

theorem fill_malformed_counterexample:
  "field_kind 1 = Some (True, 32) \<and>
   CHR ''x'' \<in> set ''9999999999x'' \<and> \<not> is_digit (CHR ''x'') \<and>
   error_of (fill zeroStatField ''9999999999x'' 1) = Inr (Some ErrRange) \<and>
   Some ErrRange \<noteq> Some ErrSyntax"
  using fill_overflow_before_letter by (simp add: field_kind_def is_digit_def)


end
